theory Spec2Isabelle
  imports Main "HOL-Library.AList"
begin

section \<open>Python values and JSON documents\<close>

text \<open>
  The session store of \<^verbatim>\<open>memory/sql_session.py\<close> keeps, for each key, the text that
  \<^verbatim>\<open>json.dumps(value, default=str)\<close> produces, and hands back what \<^verbatim>\<open>json.loads\<close>
  makes of it. The values the program passes around are modelled by \<open>pyval\<close>. A dict is
  the list of its items in insertion order, with string keys (the records of this
  program are field-named). \<open>PFloat r\<close> is the float whose \<^verbatim>\<open>repr()\<close> is \<open>r\<close>:
  \<^verbatim>\<open>json.dumps\<close> writes a float by its \<^verbatim>\<open>repr\<close> (\<^verbatim>\<open>NaN\<close>, \<^verbatim>\<open>Infinity\<close> and \<^verbatim>\<open>-Infinity\<close> for
  the three that are not numbers) and \<^verbatim>\<open>json.loads\<close> reads back the float that has this
  \<^verbatim>\<open>repr\<close>. \<open>PObj s\<close> stands for any object that JSON has no encoding for (a datetime,
  a set, ...), \<open>s\<close> being its \<^verbatim>\<open>str()\<close>.

  JSON text is modelled by the document it denotes (\<open>json\<close>), not by its characters:
  \<open>json_dumps\<close> is the document that \<^verbatim>\<open>json.dumps\<close> writes down and \<open>json_loads\<close> the
  value that \<^verbatim>\<open>json.loads\<close> builds from a document.
\<close>

datatype pyval =
    PNone
  | PBool bool
  | PInt int
  | PFloat string
  | PStr string
  | PList "pyval list"
  | PTuple "pyval list"
  | PDict "(string \<times> pyval) list"
  | PObj string

datatype json =
    JNull
  | JBool bool
  | JInt int
  | JFloat string
  | JStr string
  | JArr "json list"
  | JObj "(string \<times> json) list"

text \<open>\<^verbatim>\<open>d.update(items)\<close> and the dict a sequence of assignments builds: an existing key
  keeps its place and takes the new value, a new key goes to the end.\<close>

definition dict_update :: "(string \<times> 'v) list \<Rightarrow> (string \<times> 'v) list \<Rightarrow> (string \<times> 'v) list" where
  "dict_update d items = fold (\<lambda>(k, v) acc. AList.update k v acc) items d"

definition dict_of_items :: "(string \<times> 'v) list \<Rightarrow> (string \<times> 'v) list" where
  "dict_of_items items = dict_update [] items"

text \<open>\<^verbatim>\<open>json.dumps(value, default=str)\<close>: a tuple is written as an array, and an object
  without a JSON encoding as the string \<^verbatim>\<open>str(obj)\<close>.\<close>

fun json_dumps :: "pyval \<Rightarrow> json" where
  "json_dumps PNone = JNull"
| "json_dumps (PBool b) = JBool b"
| "json_dumps (PInt n) = JInt n"
| "json_dumps (PFloat r) = JFloat r"
| "json_dumps (PStr s) = JStr s"
| "json_dumps (PList xs) = JArr (map json_dumps xs)"
| "json_dumps (PTuple xs) = JArr (map json_dumps xs)"
| "json_dumps (PDict kvs) = JObj (map (\<lambda>(k, v). (k, json_dumps v)) kvs)"
| "json_dumps (PObj s) = JStr s"

text \<open>\<^verbatim>\<open>json.loads\<close>: an array becomes a list, an object a dict (a repeated name keeps
  its last value).\<close>

fun json_loads :: "json \<Rightarrow> pyval" where
  "json_loads JNull = PNone"
| "json_loads (JBool b) = PBool b"
| "json_loads (JInt n) = PInt n"
| "json_loads (JFloat r) = PFloat r"
| "json_loads (JStr s) = PStr s"
| "json_loads (JArr xs) = PList (map json_loads xs)"
| "json_loads (JObj kvs) = PDict (dict_of_items (map (\<lambda>(k, v). (k, json_loads v)) kvs))"

text \<open>The values JSON represents as they are: no tuple and no foreign object anywhere
  inside, and (as in every Python dict) no key twice in a dict.\<close>

fun plain_json :: "pyval \<Rightarrow> bool" where
  "plain_json PNone = True"
| "plain_json (PBool b) = True"
| "plain_json (PInt n) = True"
| "plain_json (PFloat r) = True"
| "plain_json (PStr s) = True"
| "plain_json (PList xs) = list_all plain_json xs"
| "plain_json (PTuple xs) = False"
| "plain_json (PDict kvs) = (distinct (map fst kvs) \<and> list_all (\<lambda>(k, v). plain_json v) kvs)"
| "plain_json (PObj s) = False"

section \<open>The SQLite session store\<close>

text \<open>The table \<^verbatim>\<open>session(key PRIMARY KEY, value, updated_at)\<close> as the list of its rows;
  \<^verbatim>\<open>updated_at\<close> is never read and is left out. The text in the \<^verbatim>\<open>value\<close> column is
  either the text of a JSON document or text that \<^verbatim>\<open>json.loads\<close> rejects (a row some
  other program left there; \<^verbatim>\<open>write\<close> stores documents only). Each method runs under the store's lock, so it is one atomic step.\<close>

datatype payload = Document json | Malformed string

type_synonym db = "(string \<times> payload) list"

definition session_write :: "db \<Rightarrow> string \<Rightarrow> pyval \<Rightarrow> db" where
  "session_write rows key v = AList.update key (Document (json_dumps v)) rows"

text \<open>What \<^verbatim>\<open>read\<close> and \<^verbatim>\<open>all\<close> make of the text of a row: \<^verbatim>\<open>json.loads\<close> of it, or the
  text itself when \<^verbatim>\<open>json.loads\<close> raises.\<close>

definition decode_row :: "payload \<Rightarrow> pyval" where
  "decode_row p = (case p of Document j \<Rightarrow> json_loads j | Malformed text \<Rightarrow> PStr text)"

definition session_read :: "db \<Rightarrow> string \<Rightarrow> pyval \<Rightarrow> pyval" where
  "session_read rows key dflt =
     (case map_of rows key of None \<Rightarrow> dflt | Some p \<Rightarrow> decode_row p)"


section \<open>Python operations the manager uses\<close>

datatype error = AttributeError | TypeError

text \<open>Truth value of an object, as \<^verbatim>\<open>if not meta\<close> tests it.\<close>

fun truthy :: "pyval \<Rightarrow> bool" where
  "truthy PNone = False"
| "truthy (PBool b) = b"
| "truthy (PInt n) = (n \<noteq> 0)"
| "truthy (PFloat r) = (r \<noteq> ''0.0'' \<and> r \<noteq> ''-0.0'')"
| "truthy (PStr s) = (s \<noteq> [])"
| "truthy (PList xs) = (xs \<noteq> [])"
| "truthy (PTuple xs) = (xs \<noteq> [])"
| "truthy (PDict kvs) = (kvs \<noteq> [])"
| "truthy (PObj s) = True"

text \<open>\<^verbatim>\<open>st.get(name)\<close>: only a dict has the method.\<close>

fun py_get :: "pyval \<Rightarrow> string \<Rightarrow> error + pyval" where
  "py_get (PDict kvs) name = Inr (case map_of kvs name of None \<Rightarrow> PNone | Some v \<Rightarrow> v)"
| "py_get v name = Inl AttributeError"

text \<open>\<^verbatim>\<open>meta[name] = v\<close> with a string subscript: only a dict accepts it.\<close>

fun py_setitem :: "pyval \<Rightarrow> string \<Rightarrow> pyval \<Rightarrow> error + pyval" where
  "py_setitem (PDict kvs) name v = Inr (PDict (AList.update name v kvs))"
| "py_setitem x name v = Inl TypeError"



text \<open>\<^verbatim>\<open>s.split(c)\<close> for a one-character separator: never empty.\<close>

fun split_char :: "char \<Rightarrow> string \<Rightarrow> string list" where
  "split_char c [] = [[]]"
| "split_char c (x # xs) =
     (if x = c then [] # split_char c xs
      else (case split_char c xs of
              [] \<Rightarrow> [[x]]
            | w # ws \<Rightarrow> (x # w) # ws))"

section \<open>The long-running operation manager\<close>

definition meta_key :: "string \<Rightarrow> string" where
  "meta_key op_id = ''op:'' @ op_id @ '':meta''"

definition progress_key :: "string \<Rightarrow> string" where
  "progress_key op_id = ''op:'' @ op_id @ '':progress''"

definition result_key :: "string \<Rightarrow> string" where
  "result_key op_id = ''op:'' @ op_id @ '':result''"

text \<open>
  The thread that runs \<^verbatim>\<open>_simulate_task(op_id, duration)\<close> is modelled by the point it
  has reached. Every call of the store is one atomic step; between two of them any other
  thread may run. \<open>PollMeta i\<close>: at the head of iteration \<open>i\<close> of the \<^verbatim>\<open>for\<close> loop, about
  to read the metadata. \<open>PauseWait i\<close>: in the \<^verbatim>\<open>while True\<close> loop, about to read it again.
  \<open>WriteProgress i\<close>: about to write step \<open>i + 1\<close>. \<open>WriteCancelled\<close>: about to write
  the result of a cancellation seen while paused. \<open>WriteResult\<close>, \<open>ReadMeta\<close>,
  \<open>WriteMeta meta\<close>: the three store calls after the loop. \<open>Returned\<close>: the function
  has returned; \<open>Raised e\<close>: it has died of an exception.
\<close>

datatype pc =
    PollMeta nat
  | PauseWait nat
  | WriteProgress nat
  | WriteCancelled
  | WriteResult
  | ReadMeta
  | WriteMeta pyval
  | Returned
  | Raised error

record task =
  task_duration :: int
  task_pc :: pc

text \<open>The module's globals: the session (its rows), the counters of the metrics object,
  and \<^verbatim>\<open>TASKS\<close> with the thread of each operation.\<close>

record world =
  store :: db
  counters :: "string \<Rightarrow> nat"
  threads :: "string \<Rightarrow> task option"

definition inc_counter :: "string \<Rightarrow> world \<Rightarrow> world" where
  "inc_counter name w = w\<lparr>counters := (counters w)(name := counters w name + 1)\<rparr>"

definition put :: "string \<Rightarrow> pyval \<Rightarrow> world \<Rightarrow> world" where
  "put key v w = w\<lparr>store := session_write (store w) key v\<rparr>"

definition get_status :: "string \<Rightarrow> world \<Rightarrow> error + pyval" where
  "get_status op_id w = py_get (session_read (store w) (meta_key op_id) (PDict [])) ''status''"

text \<open>One atomic step of \<^verbatim>\<open>_simulate_task\<close>; \<open>now\<close> is what \<^verbatim>\<open>time.time()\<close> returns if
  the step asks. The counter that follows a write is incremented in the same step.\<close>

fun simulate_task :: "string \<Rightarrow> int \<Rightarrow> int \<Rightarrow> pc \<Rightarrow> world \<Rightarrow> pc \<times> world" where
  "simulate_task op_id duration now (PollMeta i) w =
     (case get_status op_id w of
        Inl e \<Rightarrow> (Raised e, w)
      | Inr st \<Rightarrow> if st = PStr ''paused'' then (PauseWait i, w) else (WriteProgress i, w))"
| "simulate_task op_id duration now (PauseWait i) w =
     (case get_status op_id w of
        Inl e \<Rightarrow> (Raised e, w)
      | Inr st \<Rightarrow>
          if st = PStr ''running'' then (WriteProgress i, w)
          else if st = PStr ''cancelled'' then (WriteCancelled, w)
          else (PauseWait i, w))"
| "simulate_task op_id duration now WriteCancelled w =
     (Returned,
      inc_counter ''ops_cancelled_total''
        (put (result_key op_id) (PDict [(''status'', PStr ''cancelled'')]) w))"
| "simulate_task op_id duration now (WriteProgress i) w =
     (let steps = max 1 duration in
      (if int i + 1 < steps then PollMeta (Suc i) else WriteResult,
       inc_counter ''ops_heartbeat_total''
         (put (progress_key op_id)
            (PDict [(''step'', PInt (int i + 1)), (''total'', PInt steps)]) w)))"
| "simulate_task op_id duration now WriteResult w =
     (ReadMeta,
      put (result_key op_id)
        (PDict [(''status'', PStr ''finished''), (''completed_at'', PInt now)]) w)"
| "simulate_task op_id duration now ReadMeta w =
     (WriteMeta (session_read (store w) (meta_key op_id) (PDict [])), w)"
| "simulate_task op_id duration now (WriteMeta meta) w =
     (case py_setitem meta ''status'' (PStr ''finished'') of
        Inl e \<Rightarrow> (Raised e, w)
      | Inr meta' \<Rightarrow>
          (Returned, inc_counter ''ops_finished_total'' (put (meta_key op_id) meta' w)))"
| "simulate_task op_id duration now Returned w = (Returned, w)"
| "simulate_task op_id duration now (Raised e) w = (Raised e, w)"

text \<open>\<^verbatim>\<open>start_operation\<close>; \<open>op_id\<close> is the string \<^verbatim>\<open>uuid.uuid4()\<close> gave and \<open>now\<close> the
  clock. The new thread stands at the head of its first iteration (\<^verbatim>\<open>max(1, duration)\<close>
  is at least 1).\<close>

definition start_operation ::
  "string \<Rightarrow> int \<Rightarrow> int \<Rightarrow> (string \<times> pyval) list option \<Rightarrow> world \<Rightarrow> string \<times> world" where
  "start_operation op_id now duration metadata w =
     (let meta0 = [(''status'', PStr ''running''), (''duration'', PInt duration),
                   (''created_at'', PInt now)];
          meta = (case metadata of
                    None \<Rightarrow> meta0
                  | Some md \<Rightarrow> if md \<noteq> [] then dict_update meta0 md else meta0);
          w1 = put (meta_key op_id) (PDict meta) w;
          w2 = put (progress_key op_id)
                 (PDict [(''step'', PInt 0), (''total'', PInt duration)]) w1;
          w3 = w2\<lparr>threads := (threads w2)(op_id \<mapsto>
                      \<lparr>task_duration = duration, task_pc = PollMeta 0\<rparr>)\<rparr>
      in (op_id, inc_counter ''ops_started_total'' w3))"

text \<open>\<^verbatim>\<open>pause_operation\<close>, \<^verbatim>\<open>resume_operation\<close> and \<^verbatim>\<open>cancel_operation\<close>: the result
  is \<open>Inl\<close> the exception when the stored value is not a dict, else the returned
  boolean and the new globals.\<close>

definition pause_operation :: "string \<Rightarrow> world \<Rightarrow> error + bool \<times> world" where
  "pause_operation op_id w =
     (let meta = session_read (store w) (meta_key op_id) PNone in
      if \<not> truthy meta then Inr (False, w)
      else (case py_setitem meta ''status'' (PStr ''paused'') of
              Inl e \<Rightarrow> Inl e
            | Inr meta' \<Rightarrow>
                Inr (True, inc_counter ''ops_paused_total'' (put (meta_key op_id) meta' w))))"

definition resume_operation :: "string \<Rightarrow> world \<Rightarrow> error + bool \<times> world" where
  "resume_operation op_id w =
     (let meta = session_read (store w) (meta_key op_id) PNone in
      if \<not> truthy meta then Inr (False, w)
      else (case py_setitem meta ''status'' (PStr ''running'') of
              Inl e \<Rightarrow> Inl e
            | Inr meta' \<Rightarrow>
                Inr (True, inc_counter ''ops_resumed_total'' (put (meta_key op_id) meta' w))))"

definition cancel_operation :: "string \<Rightarrow> world \<Rightarrow> error + bool \<times> world" where
  "cancel_operation op_id w =
     (let meta = session_read (store w) (meta_key op_id) PNone in
      if \<not> truthy meta then Inr (False, w)
      else (case py_setitem meta ''status'' (PStr ''cancelled'') of
              Inl e \<Rightarrow> Inl e
            | Inr meta' \<Rightarrow>
                Inr (True, inc_counter ''ops_cancel_requested_total'' (put (meta_key op_id) meta' w))))"



section \<open>Interleavings\<close>

text \<open>
  What can happen to the globals, one atomic step at a time: a call of the manager's
  interface, or one step of the thread of an operation (\<open>Step\<close>; nothing happens for
  an identifier without a thread). A call of \<^verbatim>\<open>pause_operation\<close>, \<^verbatim>\<open>resume_operation\<close>
  or \<^verbatim>\<open>cancel_operation\<close> that raises leaves the globals as they were, the exception
  being raised before the write.

  \<^verbatim>\<open>start_operation\<close> and the three control calls are taken as one step each, although
  each makes two calls of the store. For the control calls nothing is lost: they write
  back what they read with only the status replaced, nobody ever changes another field
  of a stored metadata record, and so the write stores the same record whether the read
  was made just before it or earlier.
\<close>

datatype event =
    Start string int int "(string \<times> pyval) list option"
  | Pause string
  | Resume string
  | Cancel string
  | Step string int

definition step_thread :: "string \<Rightarrow> int \<Rightarrow> world \<Rightarrow> world" where
  "step_thread op_id now w =
     (case threads w op_id of
        None \<Rightarrow> w
      | Some t \<Rightarrow>
          (case simulate_task op_id (task_duration t) now (task_pc t) w of
             (pc', w') \<Rightarrow> w'\<lparr>threads := (threads w')(op_id \<mapsto> t\<lparr>task_pc := pc'\<rparr>)\<rparr>))"

definition after_call :: "world \<Rightarrow> error + bool \<times> world \<Rightarrow> world" where
  "after_call w r = (case r of Inl e \<Rightarrow> w | Inr (ok, w') \<Rightarrow> w')"

fun exec :: "event \<Rightarrow> world \<Rightarrow> world" where
  "exec (Start op_id now duration metadata) w = snd (start_operation op_id now duration metadata w)"
| "exec (Pause op_id) w = after_call w (pause_operation op_id w)"
| "exec (Resume op_id) w = after_call w (resume_operation op_id w)"
| "exec (Cancel op_id) w = after_call w (cancel_operation op_id w)"
| "exec (Step op_id now) w = step_thread op_id now w"

definition run :: "event list \<Rightarrow> world \<Rightarrow> world" where
  "run es w = fold exec es w"

text \<open>A fresh process on an empty database.\<close>

definition init :: world where
  "init = \<lparr>store = [], counters = (\<lambda>name. 0), threads = (\<lambda>op_id. None)\<rparr>"

text \<open>\<^verbatim>\<open>uuid.uuid4()\<close> never returns an identifier twice, and its string has no colon:
  \<open>event_ok\<close> says so of a \<open>Start\<close>, and \<open>fresh_ids\<close> of every \<open>Start\<close> of a trace.\<close>

fun event_ok :: "event \<Rightarrow> world \<Rightarrow> bool" where
  "event_ok (Start op_id now duration metadata) w =
     (threads w op_id = None \<and> CHR '':'' \<notin> set op_id)"
| "event_ok e w = True"

fun fresh_ids :: "event list \<Rightarrow> world \<Rightarrow> bool" where
  "fresh_ids [] w = True"
| "fresh_ids (e # es) w = (event_ok e w \<and> fresh_ids es (exec e w))"

section \<open>Vocabulary of the properties\<close>

text \<open>A metadata record, as \<^verbatim>\<open>start_operation\<close> writes it: a dict with a \<^verbatim>\<open>status\<close>
  field. \<open>has_metadata\<close>: the store holds one for the operation.\<close>

definition metadata_record :: "pyval \<Rightarrow> bool" where
  "metadata_record v = (case v of PDict kvs \<Rightarrow> map_of kvs ''status'' \<noteq> None | _ \<Rightarrow> False)"

definition has_metadata :: "world \<Rightarrow> string \<Rightarrow> bool" where
  "has_metadata w op_id =
     (case map_of (store w) (meta_key op_id) of
        None \<Rightarrow> False
      | Some p \<Rightarrow> metadata_record (decode_row p))"

text \<open>The common shape of the three control calls, for the proofs.\<close>

definition status_call :: "string \<Rightarrow> string \<Rightarrow> string \<Rightarrow> world \<Rightarrow> error + bool \<times> world" where
  "status_call status counter op_id w =
     (let meta = session_read (store w) (meta_key op_id) PNone in
      if \<not> truthy meta then Inr (False, w)
      else (case py_setitem meta ''status'' (PStr status) of
              Inl e \<Rightarrow> Inl e
            | Inr meta' \<Rightarrow> Inr (True, inc_counter counter (put (meta_key op_id) meta' w))))"

text \<open>Between \<open>w\<close> and \<open>w'\<close> the metadata record of the operation has kept every field
  but \<^verbatim>\<open>status\<close>, which is now \<open>s\<close>, the fields are in the same order, and the only
  row of the table that was written is the metadata row.\<close>

definition status_only :: "string \<Rightarrow> string \<Rightarrow> world \<Rightarrow> world \<Rightarrow> bool" where
  "status_only op_id s w w' =
     (\<exists>kvs kvs' payload.
        session_read (store w) (meta_key op_id) PNone = PDict kvs \<and>
        session_read (store w') (meta_key op_id) PNone = PDict kvs' \<and>
        map_of kvs' ''status'' = Some (PStr s) \<and>
        (\<forall>name. name \<noteq> ''status'' \<longrightarrow> map_of kvs' name = map_of kvs name) \<and>
        map fst kvs' = map fst kvs \<and>
        store w' = AList.update (meta_key op_id) payload (store w) \<and>
        map_of (store w') (progress_key op_id) = map_of (store w) (progress_key op_id) \<and>
        map_of (store w') (result_key op_id) = map_of (store w) (result_key op_id))"

text \<open>The progress record of an operation as the store has it, and the two shapes it
  takes: \<open>progress_at d i\<close> is the record after \<open>i\<close> units of work of an operation
  started with duration \<open>d\<close>.\<close>

definition stored_progress :: "world \<Rightarrow> string \<Rightarrow> pyval" where
  "stored_progress w op_id = session_read (store w) (progress_key op_id) PNone"

definition progress_record :: "int \<Rightarrow> int \<Rightarrow> pyval" where
  "progress_record i n = PDict [(''step'', PInt i), (''total'', PInt n)]"

definition progress_at :: "int \<Rightarrow> nat \<Rightarrow> pyval" where
  "progress_at d i = progress_record (int i) (if i = 0 then d else max 1 d)"

text \<open>What holds of a thread and the rows of its operation at every moment: the progress
  row agrees with the point the thread has reached, the result row exists exactly when
  the thread has written it, and the metadata row holds a metadata record. An
  identifier that was never started has no row.\<close>

definition result_absent :: "world \<Rightarrow> string \<Rightarrow> bool" where
  "result_absent w op_id = (map_of (store w) (result_key op_id) = None)"

fun pc_inv :: "int \<Rightarrow> pc \<Rightarrow> pyval \<Rightarrow> bool \<Rightarrow> bool" where
  "pc_inv d (PollMeta i) p no_result = (int i < max 1 d \<and> p = progress_at d i \<and> no_result)"
| "pc_inv d (PauseWait i) p no_result = (int i < max 1 d \<and> p = progress_at d i \<and> no_result)"
| "pc_inv d (WriteProgress i) p no_result = (int i < max 1 d \<and> p = progress_at d i \<and> no_result)"
| "pc_inv d WriteCancelled p no_result =
     ((\<exists>i. int i < max 1 d \<and> p = progress_at d i) \<and> no_result)"
| "pc_inv d WriteResult p no_result = (p = progress_record (max 1 d) (max 1 d) \<and> no_result)"
| "pc_inv d ReadMeta p no_result = (p = progress_record (max 1 d) (max 1 d) \<and> \<not> no_result)"
| "pc_inv d (WriteMeta m) p no_result =
     (p = progress_record (max 1 d) (max 1 d) \<and> \<not> no_result \<and>
      metadata_record m \<and> plain_json m)"
| "pc_inv d Returned p no_result =
     ((\<exists>i. int i \<le> max 1 d \<and> p = progress_at d i) \<and> \<not> no_result)"
| "pc_inv d (Raised e) p no_result = False"

definition no_rows :: "world \<Rightarrow> string \<Rightarrow> bool" where
  "no_rows w op_id =
     (map_of (store w) (meta_key op_id) = None \<and>
      map_of (store w) (progress_key op_id) = None \<and>
      map_of (store w) (result_key op_id) = None)"

definition thread_inv :: "world \<Rightarrow> string \<Rightarrow> task \<Rightarrow> bool" where
  "thread_inv w op_id t =
     (has_metadata w op_id \<and>
      pc_inv (task_duration t) (task_pc t) (stored_progress w op_id) (result_absent w op_id))"

definition world_inv :: "world \<Rightarrow> bool" where
  "world_inv w =
     (\<forall>op_id. case threads w op_id of
                None \<Rightarrow> no_rows w op_id
              | Some t \<Rightarrow> thread_inv w op_id t)"

text \<open>The metadata record that \<^verbatim>\<open>start_operation\<close> builds before it writes it (the
  first lines of its body, on their own).\<close>

definition start_meta :: "int \<Rightarrow> int \<Rightarrow> (string \<times> pyval) list option \<Rightarrow> (string \<times> pyval) list" where
  "start_meta now duration metadata =
     (let meta0 = [(''status'', PStr ''running''), (''duration'', PInt duration),
                   (''created_at'', PInt now)]
      in case metadata of
           None \<Rightarrow> meta0
         | Some md \<Rightarrow> if md \<noteq> [] then dict_update meta0 md else meta0)"

text \<open>The caller of a \<open>Start\<close> gave no annotation named \<^verbatim>\<open>status\<close>.\<close>

fun no_status_override :: "event \<Rightarrow> bool" where
  "no_status_override (Start op_id now duration (Some md)) = (map_of md ''status'' = None)"
| "no_status_override e = True"

text \<open>The points of the thread after its \<^verbatim>\<open>for\<close> loop, and after its \<^verbatim>\<open>return\<close>.\<close>

fun left_loop :: "pc \<Rightarrow> bool" where
  "left_loop ReadMeta = True"
| "left_loop (WriteMeta m) = True"
| "left_loop Returned = True"
| "left_loop pc = False"

text \<open>No operation has the status \<^verbatim>\<open>finished\<close> before it has a result row.\<close>

definition not_finished_early :: "world \<Rightarrow> bool" where
  "not_finished_early w =
     (\<forall>a. result_absent w a \<longrightarrow> get_status a w \<noteq> Inr (PStr ''finished''))"

text \<open>The keys of the table. In every state reached from \<open>init\<close> no key occurs twice,
  every key is one of the three keys of a started operation, and no identifier of a
  started operation has a colon.\<close>

definition store_keys :: "world \<Rightarrow> string set" where
  "store_keys w = fst ` set (store w)"

definition distinct_rows :: "world \<Rightarrow> bool" where
  "distinct_rows w = distinct (map fst (store w))"






section \<open>Auxiliary facts\<close>

lemma update_fresh_append: "k \<notin> fst ` set d \<Longrightarrow> AList.update k v d = d @ [(k, v)]"
  by (induction d) auto

lemma dict_update_distinct:
  "distinct (map fst (d @ items)) \<Longrightarrow> dict_update d items = d @ items"
proof (induction items arbitrary: d)
  case Nil
  then show ?case by (simp add: dict_update_def)
next
  case (Cons p items)
  obtain k v where p: "p = (k, v)" by (cases p)
  from Cons.prems p have fresh: "k \<notin> fst ` set d" by auto
  from Cons.prems p have "distinct (map fst ((d @ [(k, v)]) @ items))" by simp
  from Cons.IH [OF this] show ?case
    using fresh p by (simp add: dict_update_def update_fresh_append)
qed

lemma dict_of_items_distinct: "distinct (map fst items) \<Longrightarrow> dict_of_items items = items"
  using dict_update_distinct [of "[]" items] by (simp add: dict_of_items_def)

lemma distinct_dict_update:
  "distinct (map fst d) \<Longrightarrow> distinct (map fst (dict_update d items))"
  unfolding dict_update_def
  by (induction items arbitrary: d) (auto simp: distinct_update)

lemma set_dict_update_values:
  "x \<in> set (dict_update d items) \<Longrightarrow> x \<in> set d \<or> x \<in> set items"
  unfolding dict_update_def
proof (induction items arbitrary: d)
  case Nil then show ?case by simp
next
  case (Cons p items)
  obtain k v where p: "p = (k, v)" by (cases p)
  from Cons.prems p have "x \<in> set (fold (\<lambda>(k, v). AList.update k v) items (AList.update k v d))" by simp
  from Cons.IH [OF this] have "x \<in> set (AList.update k v d) \<or> x \<in> set items" .
  moreover have "set (AList.update k v d) \<subseteq> insert (k, v) (set d)"
    by (induction d) auto
  ultimately show ?case using p by auto
qed

lemma loads_dumps: "plain_json v \<Longrightarrow> json_loads (json_dumps v) = v"
proof (induction v rule: json_dumps.induct)
  case (6 xs)
  then show ?case by (simp add: list_all_iff map_idI)
next
  case (8 kvs)
  have d: "distinct (map fst kvs)" using 8 by simp
  have "map (\<lambda>(k, v). (k, json_loads v)) (map (\<lambda>(k, v). (k, json_dumps v)) kvs) = kvs"
  proof -
    have "\<And>p. p \<in> set kvs \<Longrightarrow> (case (case p of (k, v) \<Rightarrow> (k, json_dumps v)) of (k, v) \<Rightarrow> (k, json_loads v)) = p"
      using 8 by (auto simp: list_all_iff)
    then show ?thesis by (simp add: map_idI comp_def)
  qed
  then show ?case using d by (simp add: dict_of_items_distinct)
qed simp_all

lemma plain_loads: "plain_json (json_loads j)"
proof (induction j rule: json_loads.induct)
  case (6 xs)
  then show ?case by (simp add: list_all_iff)
next
  case (7 kvs)
  let ?items = "map (\<lambda>(k, v). (k, json_loads v)) kvs"
  have 1: "distinct (map fst (dict_of_items ?items))"
    unfolding dict_of_items_def by (rule distinct_dict_update) simp
  have 2: "\<And>p. p \<in> set (dict_of_items ?items) \<Longrightarrow> plain_json (snd p)"
  proof -
    fix p assume "p \<in> set (dict_of_items ?items)"
    then have "p \<in> set ?items"
      using set_dict_update_values [of p "[]" ?items] by (simp add: dict_of_items_def)
    then show "plain_json (snd p)" using 7 by auto
  qed
  show ?case using 1 2 by (auto simp: list_all_iff)
qed simp_all

lemma decode_row_simps [simp]:
  "decode_row (Document j) = json_loads j" "decode_row (Malformed text) = PStr text"
  by (simp_all add: decode_row_def)

lemma plain_decode_row: "plain_json (decode_row p)"
  by (cases p) (simp_all add: plain_loads del: json_loads.simps)

lemma read_write_same:
  "session_read (session_write rows k v) k d = json_loads (json_dumps v)"
  by (simp add: session_read_def session_write_def update_conv')


lemma pause_status_call: "pause_operation = status_call ''paused'' ''ops_paused_total''"
  by (intro ext) (simp add: pause_operation_def status_call_def)

lemma resume_status_call: "resume_operation = status_call ''running'' ''ops_resumed_total''"
  by (intro ext) (simp add: resume_operation_def status_call_def)

lemma cancel_status_call:
  "cancel_operation = status_call ''cancelled'' ''ops_cancel_requested_total''"
  by (intro ext) (simp add: cancel_operation_def status_call_def)

lemmas control_calls = pause_status_call resume_status_call cancel_status_call

lemma status_call_absent:
  "map_of (store w) (meta_key op_id) = None \<Longrightarrow> status_call s c op_id w = Inr (False, w)"
  by (simp add: status_call_def session_read_def)

lemma has_metadataD:
  assumes "has_metadata w op_id"
  obtains kvs where "session_read (store w) (meta_key op_id) d = PDict kvs"
    and "map_of kvs ''status'' \<noteq> None" and "kvs \<noteq> []" and "plain_json (PDict kvs)"
proof -
  from assms obtain payload where p: "map_of (store w) (meta_key op_id) = Some payload"
    and m: "metadata_record (decode_row payload)"
    by (auto simp: has_metadata_def split: option.splits)
  from m obtain kvs where k: "decode_row payload = PDict kvs" "map_of kvs ''status'' \<noteq> None"
    by (auto simp: metadata_record_def split: pyval.splits)
  then have ne: "kvs \<noteq> []" by auto
  have "plain_json (PDict kvs)" using plain_decode_row [of payload] k by simp
  with p k ne that show thesis by (simp add: session_read_def)
qed

lemma status_call_present:
  assumes "session_read (store w) (meta_key op_id) PNone = PDict kvs" and "kvs \<noteq> []"
  shows "status_call s c op_id w =
     Inr (True, inc_counter c (put (meta_key op_id) (PDict (AList.update ''status'' (PStr s) kvs)) w))"
  using assms by (simp add: status_call_def)

lemma store_inc_counter [simp]: "store (inc_counter c w) = store w"
  by (simp add: inc_counter_def)

lemma store_put [simp]: "store (put k v w) = session_write (store w) k v"
  by (simp add: put_def)

lemma plain_update:
  "plain_json (PDict kvs) \<Longrightarrow> plain_json v \<Longrightarrow> plain_json (PDict (AList.update k v kvs))"
proof -
  assume a: "plain_json (PDict kvs)" and v: "plain_json v"
  have "set (AList.update k v kvs) \<subseteq> insert (k, v) (set kvs)"
    by (induction kvs) auto
  with a v show ?thesis by (auto simp: list_all_iff distinct_update)
qed

lemma status_call_read_back:
  assumes "session_read (store w) (meta_key op_id) PNone = PDict kvs" and "kvs \<noteq> []"
    and "plain_json (PDict kvs)"
  shows "\<exists>w'. status_call s c op_id w = Inr (True, w') \<and>
     store w' = AList.update (meta_key op_id) (Document (json_dumps (PDict (AList.update ''status'' (PStr s) kvs)))) (store w) \<and>
     session_read (store w') (meta_key op_id) d = PDict (AList.update ''status'' (PStr s) kvs)"
proof -
  let ?m = "PDict (AList.update ''status'' (PStr s) kvs)"
  have "plain_json ?m"
    using assms(3) by (intro plain_update) simp_all
  then have rt: "json_loads (json_dumps ?m) = ?m" by (rule loads_dumps)
  have "session_read (store (inc_counter c (put (meta_key op_id) ?m w))) (meta_key op_id) d = ?m"
    by (simp only: store_inc_counter store_put read_write_same rt)
  moreover have "store (inc_counter c (put (meta_key op_id) ?m w)) =
      AList.update (meta_key op_id) (Document (json_dumps ?m)) (store w)"
    by (simp only: store_inc_counter store_put session_write_def)
  ultimately show ?thesis
    unfolding status_call_present [OF assms(1,2)] by blast
qed

lemma last_meta_key: "last (meta_key a) = CHR ''a''" by (simp add: meta_key_def)

lemma last_progress_key: "last (progress_key a) = CHR ''s''" by (simp add: progress_key_def)

lemma last_result_key: "last (result_key a) = CHR ''t''" by (simp add: result_key_def)

lemma meta_progress_differ: "meta_key a \<noteq> progress_key b"
proof
  assume "meta_key a = progress_key b"
  then have "last (meta_key a) = last (progress_key b)" by (rule arg_cong)
  then show False by (simp only: last_meta_key last_progress_key) simp
qed

lemma meta_result_differ: "meta_key a \<noteq> result_key b"
proof
  assume "meta_key a = result_key b"
  then have "last (meta_key a) = last (result_key b)" by (rule arg_cong)
  then show False by (simp only: last_meta_key last_result_key) simp
qed

lemma progress_result_differ: "progress_key a \<noteq> result_key b"
proof
  assume "progress_key a = result_key b"
  then have "last (progress_key a) = last (result_key b)" by (rule arg_cong)
  then show False by (simp only: last_progress_key last_result_key) simp
qed

lemmas keys_differ [simp] =
  meta_progress_differ meta_result_differ progress_result_differ
  meta_progress_differ [symmetric] meta_result_differ [symmetric]
  progress_result_differ [symmetric]

lemma keys_inject [simp]:
  "meta_key a = meta_key b \<longleftrightarrow> a = b"
  "progress_key a = progress_key b \<longleftrightarrow> a = b"
  "result_key a = result_key b \<longleftrightarrow> a = b"
  by (simp_all add: meta_key_def progress_key_def result_key_def)

lemma status_call_frame:
  assumes "has_metadata w op_id"
  shows "\<exists>w'. status_call s c op_id w = Inr (True, w') \<and> status_only op_id s w w'"
proof -
  from assms obtain kvs where r: "session_read (store w) (meta_key op_id) PNone = PDict kvs"
    and st: "map_of kvs ''status'' \<noteq> None" and ne: "kvs \<noteq> []" and pl: "plain_json (PDict kvs)"
    by (rule has_metadataD)
  let ?kvs' = "AList.update ''status'' (PStr s) kvs"
  from status_call_read_back [OF r ne pl, of s c PNone]
  obtain w' where c: "status_call s c op_id w = Inr (True, w')"
    and s': "store w' = AList.update (meta_key op_id) (Document (json_dumps (PDict ?kvs'))) (store w)"
    and r': "session_read (store w') (meta_key op_id) PNone = PDict ?kvs'"
    by blast
  have 1: "map_of ?kvs' ''status'' = Some (PStr s)" by (simp add: update_conv')
  have 2: "\<forall>name. name \<noteq> ''status'' \<longrightarrow> map_of ?kvs' name = map_of kvs name"
    by (simp add: update_conv')
  have "''status'' \<in> set (map fst kvs)" using st by (metis map_of_eq_None_iff set_map)
  then have 3: "map fst ?kvs' = map fst kvs" by (simp add: update_keys)
  have 4: "map_of (store w') (progress_key op_id) = map_of (store w) (progress_key op_id)"
    by (simp add: s' update_conv')
  have 5: "map_of (store w') (result_key op_id) = map_of (store w) (result_key op_id)"
    by (simp add: s' update_conv')
  have "status_only op_id s w w'"
    unfolding status_only_def using r r' 1 2 3 s' 4 5 by blast
  with c show ?thesis by blast
qed

lemmas world_eval =
  init_def start_operation_def put_def inc_counter_def session_write_def session_read_def
  meta_key_def progress_key_def result_key_def has_metadata_def metadata_record_def
  dict_update_def dict_of_items_def get_status_def Let_def

lemma world_inv_init: "world_inv init"
  by (simp add: world_inv_def init_def no_rows_def)

lemma threads_inc_counter [simp]: "threads (inc_counter c w) = threads w"
  by (simp add: inc_counter_def)

lemma threads_put [simp]: "threads (put k v w) = threads w"
  by (simp add: put_def)

lemma map_of_store_put: "map_of (store (put k v w)) k' = (if k' = k then Some (Document (json_dumps v)) else map_of (store w) k')"
  by (simp add: session_write_def update_conv')

lemma has_metadata_put_other:
  "k \<noteq> meta_key op_id \<Longrightarrow> has_metadata (put k v w) op_id = has_metadata w op_id"
  by (simp add: has_metadata_def map_of_store_put del: store_put)

lemma has_metadata_inc [simp]: "has_metadata (inc_counter c w) op_id = has_metadata w op_id"
  by (simp add: has_metadata_def)

lemma has_metadata_threads [simp]: "has_metadata (w\<lparr>threads := th\<rparr>) op_id = has_metadata w op_id"
  by (simp add: has_metadata_def)

lemma stored_progress_put_other:
  "k \<noteq> progress_key op_id \<Longrightarrow> stored_progress (put k v w) op_id = stored_progress w op_id"
  by (simp add: stored_progress_def session_read_def map_of_store_put del: store_put)

lemma stored_progress_put_same:
  "stored_progress (put (progress_key op_id) (progress_record i n) w) op_id = progress_record i n"
  by (simp add: stored_progress_def session_read_def map_of_store_put progress_record_def dict_of_items_def dict_update_def del: store_put)

lemma stored_progress_inc [simp]: "stored_progress (inc_counter c w) op_id = stored_progress w op_id"
  by (simp add: stored_progress_def)

lemma stored_progress_threads [simp]: "stored_progress (w\<lparr>threads := th\<rparr>) op_id = stored_progress w op_id"
  by (simp add: stored_progress_def)

lemma no_rows_put:
  "no_rows (put k v w) op_id =
     (k \<noteq> meta_key op_id \<and> k \<noteq> progress_key op_id \<and> k \<noteq> result_key op_id \<and>
      no_rows w op_id)"
  by (auto simp: no_rows_def map_of_store_put simp del: store_put)

lemma no_rows_inc [simp]: "no_rows (inc_counter c w) op_id = no_rows w op_id"
  by (simp add: no_rows_def)

lemma no_rows_threads [simp]: "no_rows (w\<lparr>threads := th\<rparr>) op_id = no_rows w op_id"
  by (simp add: no_rows_def)

lemma no_rows_result_absent: "no_rows w op_id \<Longrightarrow> result_absent w op_id"
  by (simp add: no_rows_def result_absent_def)

lemma no_rows_read_meta: "no_rows w op_id \<Longrightarrow> session_read (store w) (meta_key op_id) d = d"
  by (simp add: no_rows_def session_read_def)

lemma result_absent_put:
  "result_absent (put k v w) op_id = (k \<noteq> result_key op_id \<and> result_absent w op_id)"
  by (auto simp: result_absent_def map_of_store_put simp del: store_put)

lemma result_absent_inc [simp]: "result_absent (inc_counter c w) op_id = result_absent w op_id"
  by (simp add: result_absent_def)

lemma result_absent_threads [simp]: "result_absent (w\<lparr>threads := th\<rparr>) op_id = result_absent w op_id"
  by (simp add: result_absent_def)

lemma keys_dict_update: "fst ` set (dict_update d items) = fst ` set d \<union> fst ` set items"
  unfolding dict_update_def
proof (induction items arbitrary: d)
  case Nil then show ?case by simp
next
  case (Cons p items)
  obtain k v where p: "p = (k, v)" by (cases p)
  show ?case using Cons.IH [of "AList.update k v d"] by (auto simp: p dom_update)
qed

lemma map_fst_map_snd: "map fst (map (\<lambda>(k, v). (k, f v)) kvs) = map fst kvs"
  by (induction kvs) auto

lemma keys_dict_of_items: "fst ` set (dict_of_items items) = fst ` set items"
  by (simp add: dict_of_items_def keys_dict_update)

lemma keys_loads_dumps_dict:
  "json_loads (json_dumps (PDict kvs)) = PDict kvs' \<Longrightarrow> fst ` set kvs' = fst ` set kvs"
proof -
  assume a: "json_loads (json_dumps (PDict kvs)) = PDict kvs'"
  let ?items = "map (\<lambda>(k, v). (k, json_loads v)) (map (\<lambda>(k, v). (k, json_dumps v)) kvs)"
  from a have "kvs' = dict_of_items ?items" by simp
  then have "fst ` set kvs' = fst ` set ?items" by (simp only: keys_dict_of_items)
  also have "\<dots> = set (map fst ?items)" by (simp only: set_map)
  also have "\<dots> = set (map fst kvs)" by (simp only: map_fst_map_snd)
  finally show ?thesis by (simp only: set_map)
qed

lemma metadata_record_round:
  "metadata_record (PDict kvs) \<Longrightarrow> metadata_record (json_loads (json_dumps (PDict kvs)))"
proof -
  assume "metadata_record (PDict kvs)"
  then have "''status'' \<in> fst ` set kvs"
    by (simp add: metadata_record_def map_of_eq_None_iff)
  moreover obtain kvs' where k: "json_loads (json_dumps (PDict kvs)) = PDict kvs'" by simp
  ultimately have "''status'' \<in> fst ` set kvs'" using keys_loads_dumps_dict [OF k] by simp
  then show ?thesis unfolding k by (simp add: metadata_record_def map_of_eq_None_iff)
qed

lemma has_metadata_put_meta:
  "metadata_record (PDict kvs) \<Longrightarrow> has_metadata (put (meta_key op_id) (PDict kvs) w) op_id"
  using metadata_record_round [of kvs]
  by (simp add: has_metadata_def map_of_store_put del: store_put json_dumps.simps json_loads.simps)

lemma thread_inv_cong:
  "has_metadata w' op_id = has_metadata w op_id \<Longrightarrow>
   stored_progress w' op_id = stored_progress w op_id \<Longrightarrow>
   result_absent w' op_id = result_absent w op_id \<Longrightarrow>
   thread_inv w' op_id t = thread_inv w op_id t"
  by (simp only: thread_inv_def)

lemma get_status_defined:
  assumes "has_metadata w op_id"
  shows "\<exists>v. get_status op_id w = Inr v"
proof -
  from assms obtain kvs where "session_read (store w) (meta_key op_id) (PDict []) = PDict kvs"
    by (rule has_metadataD)
  then show ?thesis by (simp add: get_status_def)
qed

lemma read_meta_record:
  assumes "has_metadata w op_id"
  shows "metadata_record (session_read (store w) (meta_key op_id) d) \<and>
         plain_json (session_read (store w) (meta_key op_id) d)"
proof -
  from assms obtain kvs where "session_read (store w) (meta_key op_id) d = PDict kvs"
    "map_of kvs ''status'' \<noteq> None" "plain_json (PDict kvs)"
    by (rule has_metadataD)
  then show ?thesis by (simp add: metadata_record_def)
qed

lemma metadata_record_setitem:
  assumes "metadata_record m"
  obtains kvs where "m = PDict kvs"
    and "py_setitem m ''status'' v = Inr (PDict (AList.update ''status'' v kvs))"
    and "metadata_record (PDict (AList.update ''status'' v kvs))"
proof -
  from assms obtain kvs where m: "m = PDict kvs"
    by (auto simp: metadata_record_def split: pyval.splits)
  have "metadata_record (PDict (AList.update ''status'' v kvs))"
    by (simp add: metadata_record_def update_conv')
  with m that show thesis by simp
qed

lemma sim_frame:
  assumes "op_id \<noteq> a" and "simulate_task a d now pc w = (pc', w')"
  shows "has_metadata w' op_id = has_metadata w op_id \<and>
         stored_progress w' op_id = stored_progress w op_id \<and>
         result_absent w' op_id = result_absent w op_id \<and>
         no_rows w' op_id = no_rows w op_id \<and>
         threads w' = threads w"
  using assms
  by (cases pc)
     (auto simp: has_metadata_put_other stored_progress_put_other result_absent_put
           no_rows_put Let_def
           split: sum.splits if_splits)

lemma sim_inv:
  assumes inv: "thread_inv w a \<lparr>task_duration = d, task_pc = pc\<rparr>"
    and sim: "simulate_task a d now pc w = (pc', w')"
  shows "thread_inv w' a \<lparr>task_duration = d, task_pc = pc'\<rparr> \<and> threads w' = threads w"
proof -
  from inv have hm: "has_metadata w a" by (simp add: thread_inv_def)
  from get_status_defined [OF hm] obtain st where st: "get_status a w = Inr st" by blast
  show ?thesis
  proof (cases pc)
    case (PollMeta i)
    with inv sim st show ?thesis by (auto simp: thread_inv_def split: if_splits)
  next
    case (PauseWait i)
    with inv sim st show ?thesis by (auto simp: thread_inv_def split: if_splits)
  next
    case (WriteProgress i)
    with inv have i: "int i < max 1 d" and ra: "result_absent w a" by (simp_all add: thread_inv_def)
    let ?w' = "inc_counter ''ops_heartbeat_total''
         (put (progress_key a) (PDict [(''step'', PInt (int i + 1)), (''total'', PInt (max 1 d))]) w)"
    from sim WriteProgress have w': "w' = ?w'"
      and pc': "pc' = (if int i + 1 < max 1 d then PollMeta (Suc i) else WriteResult)"
      by (auto simp: Let_def)
    have p: "stored_progress w' a = progress_record (int i + 1) (max 1 d)"
      unfolding w' using stored_progress_put_same [of a "int i + 1" "max 1 d" w]
      by (simp add: progress_record_def)
    have h: "has_metadata w' a" unfolding w' using hm by (simp add: has_metadata_put_other)
    have r: "result_absent w' a" unfolding w' using ra by (simp add: result_absent_put)
    have t: "threads w' = threads w" unfolding w' by simp
    show ?thesis
    proof (cases "int i + 1 < max 1 d")
      case True
      then show ?thesis using p h r t pc' by (auto simp: thread_inv_def progress_at_def add.commute)
    next
      case False
      with i have "int i + 1 = max 1 d" by linarith
      then show ?thesis using False p h r t pc' by (simp add: thread_inv_def)
    qed
  next
    case WriteCancelled
    with inv sim hm show ?thesis
      by (auto simp: thread_inv_def has_metadata_put_other stored_progress_put_other
            result_absent_put intro: less_imp_le)
  next
    case WriteResult
    with inv sim hm show ?thesis
      by (auto simp: thread_inv_def has_metadata_put_other stored_progress_put_other
            result_absent_put)
  next
    case ReadMeta
    with inv sim hm show ?thesis
      using read_meta_record [OF hm, of "PDict []"] by (auto simp: thread_inv_def)
  next
    case (WriteMeta m)
    with inv have p: "stored_progress w a = progress_record (max 1 d) (max 1 d)"
      and r: "\<not> result_absent w a" and mr: "metadata_record m"
      by (simp_all add: thread_inv_def)
    from mr obtain kvs where
      set: "py_setitem m ''status'' (PStr ''finished'') = Inr (PDict (AList.update ''status'' (PStr ''finished'') kvs))"
      and mr': "metadata_record (PDict (AList.update ''status'' (PStr ''finished'') kvs))"
      by (rule metadata_record_setitem)
    let ?m' = "PDict (AList.update ''status'' (PStr ''finished'') kvs)"
    from sim WriteMeta set have pc': "pc' = Returned"
      and w': "w' = inc_counter ''ops_finished_total'' (put (meta_key a) ?m' w)"
      by simp_all
    have h: "has_metadata w' a" unfolding w' using has_metadata_put_meta [OF mr'] by simp
    have n: "int (nat (max 1 d)) = max 1 d" "nat (max 1 d) \<noteq> 0" by simp_all
    have "progress_at d (nat (max 1 d)) = progress_record (max 1 d) (max 1 d)"
      unfolding progress_at_def by (simp only: n if_False)
    then have p': "stored_progress w' a = progress_at d (nat (max 1 d))"
      unfolding w' using p by (simp add: stored_progress_put_other)
    have r': "\<not> result_absent w' a" unfolding w' using r by (simp add: result_absent_put)
    have "int (nat (max 1 d)) \<le> max 1 d" by simp
    with p' have "\<exists>i. int i \<le> max 1 d \<and> stored_progress w' a = progress_at d i" by blast
    then show ?thesis using h r' pc' w' by (simp add: thread_inv_def)
  next
    case Returned
    with inv sim show ?thesis by auto
  next
    case (Raised e)
    with inv show ?thesis by (simp add: thread_inv_def)
  qed
qed

lemma task_eta: "\<lparr>task_duration = task_duration t, task_pc = pc'\<rparr> = t\<lparr>task_pc := pc'\<rparr>"
  by (cases t) simp

lemma world_inv_step:
  assumes inv: "world_inv w"
  shows "world_inv (step_thread a now w)"
proof (cases "threads w a")
  case None
  then show ?thesis using inv by (simp add: step_thread_def)
next
  case (Some t)
  obtain pc' w1 where sim: "simulate_task a (task_duration t) now (task_pc t) w = (pc', w1)"
    by (cases "simulate_task a (task_duration t) now (task_pc t) w")
  let ?w' = "w1\<lparr>threads := (threads w1)(a \<mapsto> t\<lparr>task_pc := pc'\<rparr>)\<rparr>"
  have w': "step_thread a now w = ?w'" using Some sim by (simp add: step_thread_def)
  from inv Some have "thread_inv w a t" by (simp add: world_inv_def split: option.splits)
  then have "thread_inv w a \<lparr>task_duration = task_duration t, task_pc = task_pc t\<rparr>"
    by (cases t) simp
  from sim_inv [OF this sim]
  have a1: "thread_inv w1 a (t\<lparr>task_pc := pc'\<rparr>)" and th: "threads w1 = threads w"
    by (simp_all only: task_eta)
  have "\<And>op_id. case threads ?w' op_id of None \<Rightarrow> no_rows ?w' op_id
                   | Some t' \<Rightarrow> thread_inv ?w' op_id t'"
  proof -
    fix op_id
    show "case threads ?w' op_id of None \<Rightarrow> no_rows ?w' op_id
                   | Some t' \<Rightarrow> thread_inv ?w' op_id t'"
    proof (cases "op_id = a")
      case True
      have "thread_inv ?w' a (t\<lparr>task_pc := pc'\<rparr>) = thread_inv w1 a (t\<lparr>task_pc := pc'\<rparr>)"
        by (rule thread_inv_cong) simp_all
      with a1 True show ?thesis by simp
    next
      case False
      from sim_frame [OF False sim]
      have f: "has_metadata w1 op_id = has_metadata w op_id"
        "stored_progress w1 op_id = stored_progress w op_id"
        "result_absent w1 op_id = result_absent w op_id"
        "no_rows w1 op_id = no_rows w op_id" by simp_all
      from inv have o: "case threads w op_id of None \<Rightarrow> no_rows w op_id
                   | Some t' \<Rightarrow> thread_inv w op_id t'" by (simp add: world_inv_def)
      show ?thesis
      proof (cases "threads w op_id")
        case None
        with o f False th show ?thesis by simp
      next
        case (Some t')
        have "thread_inv ?w' op_id t' = thread_inv w op_id t'"
          by (rule thread_inv_cong) (simp_all add: f)
        with o Some False th show ?thesis by simp
      qed
    qed
  qed
  then show ?thesis unfolding w' world_inv_def by blast
qed

lemma status_call_effect:
  "after_call w (status_call s c a w) = w \<or>
   (\<exists>kvs. session_read (store w) (meta_key a) PNone = PDict kvs \<and> kvs \<noteq> [] \<and>
      after_call w (status_call s c a w) =
        inc_counter c (put (meta_key a) (PDict (AList.update ''status'' (PStr s) kvs)) w))"
proof (cases "session_read (store w) (meta_key a) PNone")
  case (PDict kvs)
  then show ?thesis by (cases "kvs = []") (simp_all add: status_call_def after_call_def)
qed (simp_all add: status_call_def after_call_def)

lemma world_inv_status_call:
  assumes inv: "world_inv w"
  shows "world_inv (after_call w (status_call s c a w))"
proof -
  from status_call_effect [of w s c a]
  show ?thesis
  proof
    assume "after_call w (status_call s c a w) = w"
    with inv show ?thesis by simp
  next
    assume "\<exists>kvs. session_read (store w) (meta_key a) PNone = PDict kvs \<and> kvs \<noteq> [] \<and>
      after_call w (status_call s c a w) =
        inc_counter c (put (meta_key a) (PDict (AList.update ''status'' (PStr s) kvs)) w)"
    then obtain kvs where rd: "session_read (store w) (meta_key a) PNone = PDict kvs"
      and w': "after_call w (status_call s c a w) =
        inc_counter c (put (meta_key a) (PDict (AList.update ''status'' (PStr s) kvs)) w)"
      by blast
    let ?m = "PDict (AList.update ''status'' (PStr s) kvs)"
    let ?w' = "inc_counter c (put (meta_key a) ?m w)"
    have mr: "metadata_record ?m" by (simp add: metadata_record_def update_conv')
    have hm: "\<And>op_id. has_metadata w op_id \<Longrightarrow> has_metadata ?w' op_id"
    proof -
      fix op_id assume h: "has_metadata w op_id"
      show "has_metadata ?w' op_id"
      proof (cases "op_id = a")
        case True
        then show ?thesis using has_metadata_put_meta [OF mr, of a w] by simp
      next
        case False
        then show ?thesis using h by (simp add: has_metadata_put_other)
      qed
    qed
    have "\<And>op_id. case threads ?w' op_id of None \<Rightarrow> no_rows ?w' op_id
                   | Some t' \<Rightarrow> thread_inv ?w' op_id t'"
    proof -
      fix op_id
      from inv have o: "case threads w op_id of None \<Rightarrow> no_rows w op_id
                   | Some t' \<Rightarrow> thread_inv w op_id t'" by (simp add: world_inv_def)
      show "case threads ?w' op_id of None \<Rightarrow> no_rows ?w' op_id
                   | Some t' \<Rightarrow> thread_inv ?w' op_id t'"
      proof (cases "threads w op_id")
        case None
        with o have nr: "no_rows w op_id" by simp
        have "op_id \<noteq> a" using no_rows_read_meta [OF nr, of PNone] rd by auto
        with nr None show ?thesis by (simp add: no_rows_put)
      next
        case (Some t')
        with o have t: "thread_inv w op_id t'" by simp
        then have "has_metadata ?w' op_id" using hm by (simp add: thread_inv_def)
        with t Some show ?thesis
          by (simp add: thread_inv_def stored_progress_put_other result_absent_put)
      qed
    qed
    then show ?thesis unfolding w' world_inv_def by blast
  qed
qed

lemma start_operation_unfold:
  "snd (start_operation a now d md w) =
     inc_counter ''ops_started_total''
       ((put (progress_key a) (progress_record 0 d)
          (put (meta_key a) (PDict (start_meta now d md)) w))
        \<lparr>threads := (threads w)(a \<mapsto> \<lparr>task_duration = d, task_pc = PollMeta 0\<rparr>)\<rparr>)"
  by (simp add: start_operation_def start_meta_def progress_record_def Let_def)

lemma start_meta_record: "metadata_record (PDict (start_meta now d md))"
proof -
  have "''status'' \<in> fst ` set (start_meta now d md)"
    by (auto simp: start_meta_def Let_def keys_dict_update split: option.splits)
  then show ?thesis by (simp add: metadata_record_def map_of_eq_None_iff)
qed

lemma world_inv_start:
  assumes inv: "world_inv w" and fresh: "threads w a = None"
  shows "world_inv (snd (start_operation a now d md w))"
proof -
  let ?w1 = "put (meta_key a) (PDict (start_meta now d md)) w"
  let ?w2 = "put (progress_key a) (progress_record 0 d) ?w1"
  let ?th = "(threads w)(a \<mapsto> \<lparr>task_duration = d, task_pc = PollMeta 0\<rparr>)"
  let ?w' = "inc_counter ''ops_started_total'' (?w2\<lparr>threads := ?th\<rparr>)"
  have "\<And>op_id. case threads ?w' op_id of None \<Rightarrow> no_rows ?w' op_id
                   | Some t' \<Rightarrow> thread_inv ?w' op_id t'"
  proof -
    fix op_id
    from inv have o: "case threads w op_id of None \<Rightarrow> no_rows w op_id
                   | Some t' \<Rightarrow> thread_inv w op_id t'" by (simp add: world_inv_def)
    show "case threads ?w' op_id of None \<Rightarrow> no_rows ?w' op_id
                   | Some t' \<Rightarrow> thread_inv ?w' op_id t'"
    proof (cases "op_id = a")
      case True
      from inv have "case threads w a of None \<Rightarrow> no_rows w a | Some t' \<Rightarrow> thread_inv w a t'"
        unfolding world_inv_def by (rule spec)
      with fresh have ra: "result_absent w a" by (simp add: no_rows_result_absent)
      have h: "has_metadata ?w' a"
        using has_metadata_put_meta [OF start_meta_record, of a now d md w]
        by (simp add: has_metadata_put_other)
      have p: "stored_progress ?w' a = progress_at d 0"
        using stored_progress_put_same [of a 0 d ?w1] by (simp add: progress_at_def)
      have r: "result_absent ?w' a" using ra by (simp add: result_absent_put)
      show ?thesis using True h p r by (simp add: thread_inv_def)
    next
      case False
      show ?thesis
      proof (cases "threads w op_id")
        case None
        with o False show ?thesis by (simp add: no_rows_put)
      next
        case (Some t')
        with o False show ?thesis
          by (simp add: thread_inv_def has_metadata_put_other stored_progress_put_other
                result_absent_put)
      qed
    qed
  qed
  then show ?thesis unfolding start_operation_unfold world_inv_def by blast
qed

lemma world_inv_exec:
  "world_inv w \<Longrightarrow> event_ok e w \<Longrightarrow> world_inv (exec e w)"
  by (cases e)
     (simp_all add: world_inv_start world_inv_step control_calls world_inv_status_call)

lemma world_inv_run:
  "world_inv w \<Longrightarrow> fresh_ids es w \<Longrightarrow> world_inv (run es w)"
  unfolding run_def
  by (induction es arbitrary: w) (simp_all add: world_inv_exec)

lemma reachable_inv: "fresh_ids es init \<Longrightarrow> world_inv (run es init)"
  by (rule world_inv_run [OF world_inv_init])

lemma exec_keeps_thread:
  assumes "threads w a = Some t" and "event_ok e w"
  shows "\<exists>t'. threads (exec e w) a = Some t' \<and> task_duration t' = task_duration t"
proof (cases e)
  case (Start a' now d md)
  with assms have "a' \<noteq> a" by auto
  with assms Start show ?thesis by (simp add: start_operation_unfold)
next
  case (Pause a')
  show ?thesis using status_call_effect [of w "''paused''" "''ops_paused_total''" a'] assms Pause
    by (auto simp: control_calls)
next
  case (Resume a')
  show ?thesis using status_call_effect [of w "''running''" "''ops_resumed_total''" a'] assms Resume
    by (auto simp: control_calls)
next
  case (Cancel a')
  show ?thesis
    using status_call_effect [of w "''cancelled''" "''ops_cancel_requested_total''" a'] assms Cancel
    by (auto simp: control_calls)
next
  case (Step a' now)
  show ?thesis
  proof (cases "threads w a'")
    case None
    with assms Step show ?thesis by (simp add: step_thread_def)
  next
    case (Some t2)
    obtain pc' w1 where sim: "simulate_task a' (task_duration t2) now (task_pc t2) w = (pc', w1)"
      by (cases "simulate_task a' (task_duration t2) now (task_pc t2) w")
    have th: "threads w1 = threads w"
    proof (cases "task_pc t2")
      case (WriteProgress i)
      with sim show ?thesis by (auto simp: Let_def)
    qed (use sim in \<open>auto split: sum.splits if_splits\<close>)
    show ?thesis using assms Step Some sim th by (auto simp: step_thread_def)
  qed
qed





lemma run_snoc: "run (es @ [e]) w = exec e (run es w)"
  by (simp add: run_def)

lemma fresh_ids_snoc: "fresh_ids (es @ [e]) w = (fresh_ids es w \<and> event_ok e (run es w))"
  unfolding run_def by (induction es arbitrary: w) simp_all

lemma fresh_ids_append:
  "fresh_ids (es @ es') w = (fresh_ids es w \<and> fresh_ids es' (run es w))"
  unfolding run_def by (induction es arbitrary: w) simp_all

lemma run_append: "run (es @ es') w = run es' (run es w)"
  by (simp add: run_def)



lemma run_keeps_thread:
  "threads w a = Some t \<Longrightarrow> fresh_ids es w \<Longrightarrow>
   \<exists>t'. threads (run es w) a = Some t' \<and> task_duration t' = task_duration t"
proof (induction es arbitrary: w t)
  case Nil
  then show ?case by (simp add: run_def)
next
  case (Cons e es)
  from Cons.prems have ok: "event_ok e w" and fr: "fresh_ids es (exec e w)" by simp_all
  from exec_keeps_thread [OF Cons.prems(1) ok] obtain t1 where
    t1: "threads (exec e w) a = Some t1" "task_duration t1 = task_duration t" by blast
  from Cons.IH [OF t1(1) fr] t1(2) show ?case by (simp add: run_def)
qed

lemma world_inv_thread:
  "world_inv w \<Longrightarrow> threads w a = Some t \<Longrightarrow> thread_inv w a t"
proof -
  assume inv: "world_inv w" and th: "threads w a = Some t"
  from inv have "case threads w a of None \<Rightarrow> no_rows w a | Some t' \<Rightarrow> thread_inv w a t'"
    unfolding world_inv_def by (rule spec)
  with th show ?thesis by simp
qed



lemmas trace_eval =
  run_def init_def start_operation_def step_thread_def put_def inc_counter_def
  session_write_def session_read_def meta_key_def progress_key_def result_key_def
  get_status_def stored_progress_def progress_record_def Let_def after_call_def
  pause_operation_def resume_operation_def cancel_operation_def
  dict_of_items_def dict_update_def result_absent_def

lemma get_status_cong:
  "map_of (store w') (meta_key a) = map_of (store w) (meta_key a) \<Longrightarrow>
   get_status a w' = get_status a w"
  by (simp add: get_status_def session_read_def)

lemma sim_rows:
  assumes "simulate_task a d now pc w = (pc', w')"
    and "k \<noteq> meta_key a" and "k \<noteq> progress_key a" and "k \<noteq> result_key a"
  shows "map_of (store w') k = map_of (store w) k"
  using assms
  by (cases pc)
     (auto simp: map_of_store_put Let_def simp del: store_put split: sum.splits if_splits)

lemma sim_meta_row:
  assumes "simulate_task a d now pc w = (pc', w')" and "\<forall>m. pc \<noteq> WriteMeta m"
  shows "map_of (store w') (meta_key a) = map_of (store w) (meta_key a)"
  using assms
  by (cases pc)
     (auto simp: map_of_store_put Let_def simp del: store_put split: sum.splits if_splits)

lemma step_thread_rows:
  assumes "k \<noteq> meta_key a" and "k \<noteq> progress_key a" and "k \<noteq> result_key a"
  shows "map_of (store (step_thread a now w)) k = map_of (store w) k"
proof (cases "threads w a")
  case None
  then show ?thesis by (simp add: step_thread_def)
next
  case (Some t)
  obtain pc' w1 where sim: "simulate_task a (task_duration t) now (task_pc t) w = (pc', w1)"
    by (cases "simulate_task a (task_duration t) now (task_pc t) w")
  from sim_rows [OF sim assms] Some sim show ?thesis by (simp add: step_thread_def)
qed

lemma get_status_put_meta:
  assumes "plain_json (PDict kvs)"
  shows "get_status a (inc_counter c (put (meta_key a) (PDict (AList.update ''status'' (PStr s) kvs)) w))
           = Inr (PStr s)"
proof -
  let ?m = "PDict (AList.update ''status'' (PStr s) kvs)"
  have "plain_json ?m" using assms by (intro plain_update) simp_all
  then have rt: "json_loads (json_dumps ?m) = ?m" by (rule loads_dumps)
  have "session_read (store (inc_counter c (put (meta_key a) ?m w))) (meta_key a) (PDict []) = ?m"
    by (simp only: store_inc_counter store_put read_write_same rt)
  then show ?thesis by (simp add: get_status_def update_conv')
qed

lemma status_call_status:
  assumes "has_metadata w a"
  shows "get_status a (after_call w (status_call s c a w)) = Inr (PStr s)"
proof -
  from assms obtain kvs where r: "session_read (store w) (meta_key a) PNone = PDict kvs"
    and ne: "kvs \<noteq> []" and pl: "plain_json (PDict kvs)"
    by (rule has_metadataD)
  show ?thesis
    unfolding status_call_present [OF r ne] after_call_def
    using get_status_put_meta [OF pl, of a c s w] by simp
qed

lemma status_call_other:
  assumes "a' \<noteq> a"
  shows "map_of (store (after_call w (status_call s c a' w))) (meta_key a) = map_of (store w) (meta_key a)"
  using status_call_effect [of w s c a'] assms
  by (auto simp: map_of_store_put simp del: store_put)

lemma status_exec:
  assumes inv: "world_inv w" and ok: "event_ok e w" and th: "threads w a = Some t"
  shows "get_status a (exec e w) =
     (if e = Pause a then Inr (PStr ''paused'')
      else if e = Resume a then Inr (PStr ''running'')
      else if e = Cancel a then Inr (PStr ''cancelled'')
      else if (\<exists>now. e = Step a now) \<and> (\<exists>m. task_pc t = WriteMeta m) then Inr (PStr ''finished'')
      else get_status a w)"
proof -
  from world_inv_thread [OF inv th] have ti: "thread_inv w a t" .
  then have hm: "has_metadata w a" by (simp add: thread_inv_def)
  show ?thesis
  proof (cases e)
    case (Start a' now d md)
    with ok th have ne: "a' \<noteq> a" by auto
    have "map_of (store (exec e w)) (meta_key a) = map_of (store w) (meta_key a)"
      using ne Start by (simp add: start_operation_unfold map_of_store_put del: store_put)
    from get_status_cong [OF this] Start show ?thesis by simp
  next
    case (Pause a')
    show ?thesis
    proof (cases "a' = a")
      case True
      with Pause status_call_status [OF hm] show ?thesis by (simp add: control_calls)
    next
      case False
      from get_status_cong [OF status_call_other [OF False]] Pause False show ?thesis
        by (simp add: control_calls)
    qed
  next
    case (Resume a')
    show ?thesis
    proof (cases "a' = a")
      case True
      with Resume status_call_status [OF hm] show ?thesis by (simp add: control_calls)
    next
      case False
      from get_status_cong [OF status_call_other [OF False]] Resume False show ?thesis
        by (simp add: control_calls)
    qed
  next
    case (Cancel a')
    show ?thesis
    proof (cases "a' = a")
      case True
      with Cancel status_call_status [OF hm] show ?thesis by (simp add: control_calls)
    next
      case False
      from get_status_cong [OF status_call_other [OF False]] Cancel False show ?thesis
        by (simp add: control_calls)
    qed
  next
    case (Step a' now)
    show ?thesis
    proof (cases "a' = a")
      case False
      have "map_of (store (step_thread a' now w)) (meta_key a) = map_of (store w) (meta_key a)"
        using False by (intro step_thread_rows) simp_all
      from get_status_cong [OF this] Step False show ?thesis by simp
    next
      case True
      obtain pc' w1 where sim: "simulate_task a (task_duration t) now (task_pc t) w = (pc', w1)"
        by (cases "simulate_task a (task_duration t) now (task_pc t) w")
      have st: "store (step_thread a now w) = store w1"
        using th sim by (simp add: step_thread_def)
      show ?thesis
      proof (cases "\<exists>m. task_pc t = WriteMeta m")
        case False
        then have "\<forall>m. task_pc t \<noteq> WriteMeta m" by simp
        from sim_meta_row [OF sim this]
        have "map_of (store (step_thread a now w)) (meta_key a) = map_of (store w) (meta_key a)"
          by (simp only: st)
        from get_status_cong [OF this] Step True False show ?thesis by simp
      next
        case True': True
        then obtain m where pc: "task_pc t = WriteMeta m" by blast
        with ti have mr: "metadata_record m" and pl: "plain_json m" by (simp_all add: thread_inv_def)
        from mr obtain kvs where m: "m = PDict kvs"
          by (auto simp: metadata_record_def split: pyval.splits)
        from sim pc m have "w1 = inc_counter ''ops_finished_total''
            (put (meta_key a) (PDict (AList.update ''status'' (PStr ''finished'') kvs)) w)"
          by simp
        then have "store (step_thread a now w) = store (inc_counter ''ops_finished_total''
            (put (meta_key a) (PDict (AList.update ''status'' (PStr ''finished'') kvs)) w))"
          by (simp only: st)
        then have "get_status a (step_thread a now w) = Inr (PStr ''finished'')"
          using get_status_put_meta [of kvs a "''ops_finished_total''" "''finished''" w] pl m
          by (simp add: get_status_def)
        with Step True True' show ?thesis by simp
      qed
    qed
  qed
qed

lemma map_of_dict_update_other:
  "k \<notin> fst ` set items \<Longrightarrow> map_of (dict_update d items) k = map_of d k"
  unfolding dict_update_def
proof (induction items arbitrary: d)
  case Nil then show ?case by simp
next
  case (Cons p items)
  obtain k' v where p: "p = (k', v)" by (cases p)
  from Cons.prems p have "k \<noteq> k'" "k \<notin> fst ` set items" by auto
  with Cons.IH [of "AList.update k' v d"] p show ?case by (simp add: update_conv')
qed

lemma loads_dumps_dict:
  assumes "distinct (map fst kvs)"
  shows "json_loads (json_dumps (PDict kvs)) =
           PDict (map (\<lambda>(k, v). (k, json_loads (json_dumps v))) kvs)"
proof -
  let ?items = "map (\<lambda>(k, v). (k, json_loads v)) (map (\<lambda>(k, v). (k, json_dumps v)) kvs)"
  have e: "?items = map (\<lambda>(k, v). (k, json_loads (json_dumps v))) kvs"
    by (induction kvs) auto
  have "map fst ?items = map fst kvs" by (simp only: map_fst_map_snd)
  with assms have "distinct (map fst ?items)" by (simp only:)
  then have "dict_of_items ?items = ?items" by (rule dict_of_items_distinct)
  then show ?thesis using e by simp
qed

lemma distinct_start_meta: "distinct (map fst (start_meta now d md))"
  by (auto simp: start_meta_def Let_def distinct_dict_update split: option.splits)

lemma start_meta_status:
  "no_status_override (Start a now d md) \<Longrightarrow>
   map_of (start_meta now d md) ''status'' = Some (PStr ''running'')"
proof (cases md)
  case None
  then show ?thesis by (simp add: start_meta_def)
next
  case (Some items)
  assume "no_status_override (Start a now d md)"
  with Some have "''status'' \<notin> fst ` set items" by (simp add: map_of_eq_None_iff)
  then show ?thesis using Some
    by (simp add: start_meta_def Let_def map_of_dict_update_other)
qed

lemma read_meta_after_start:
  "session_read (store (exec (Start a now d md) w)) (meta_key a) dflt =
     PDict (map (\<lambda>(k, v). (k, json_loads (json_dumps v))) (start_meta now d md))"
proof -
  have "map_of (store (exec (Start a now d md) w)) (meta_key a)
          = Some (Document (json_dumps (PDict (start_meta now d md))))"
    by (simp add: start_operation_unfold map_of_store_put del: store_put json_dumps.simps)
  then show ?thesis
    by (simp only: session_read_def option.simps decode_row_simps
          loads_dumps_dict [OF distinct_start_meta])
qed

lemma status_after_start:
  assumes "no_status_override (Start a now d md)"
  shows "get_status a (exec (Start a now d md) w) = Inr (PStr ''running'')"
proof -
  have "map_of (map (\<lambda>(k, v). (k, json_loads (json_dumps v))) (start_meta now d md)) ''status''
          = map_option (\<lambda>v. json_loads (json_dumps v)) (map_of (start_meta now d md) ''status'')"
    by (simp add: map_of_map)
  also have "\<dots> = Some (PStr ''running'')"
    by (simp add: start_meta_status [OF assms])
  finally show ?thesis
    unfolding get_status_def read_meta_after_start by simp
qed

lemma sim_persist:
  assumes "simulate_task a d now pc w = (pc', w')" and "map_of (store w) k \<noteq> None"
  shows "map_of (store w') k \<noteq> None"
  using assms
  by (cases pc)
     (auto simp: map_of_store_put Let_def simp del: store_put split: sum.splits if_splits)

lemma row_persist:
  assumes "map_of (store w) k \<noteq> None"
  shows "map_of (store (exec e w)) k \<noteq> None"
proof (cases e)
  case (Start a now d md)
  with assms show ?thesis by (simp add: start_operation_unfold map_of_store_put del: store_put)
next
  case (Pause a)
  with assms status_call_effect [of w "''paused''" "''ops_paused_total''" a] show ?thesis
    by (auto simp: control_calls map_of_store_put simp del: store_put)
next
  case (Resume a)
  with assms status_call_effect [of w "''running''" "''ops_resumed_total''" a] show ?thesis
    by (auto simp: control_calls map_of_store_put simp del: store_put)
next
  case (Cancel a)
  with assms status_call_effect [of w "''cancelled''" "''ops_cancel_requested_total''" a]
  show ?thesis by (auto simp: control_calls map_of_store_put simp del: store_put)
next
  case (Step a now)
  show ?thesis
  proof (cases "threads w a")
    case None
    with Step assms show ?thesis by (simp add: step_thread_def)
  next
    case (Some t)
    obtain pc' w1 where sim: "simulate_task a (task_duration t) now (task_pc t) w = (pc', w1)"
      by (cases "simulate_task a (task_duration t) now (task_pc t) w")
    from sim_persist [OF sim assms] Step Some sim show ?thesis by (simp add: step_thread_def)
  qed
qed

lemma meta_row_unstarted:
  assumes nr: "threads w a = None" and ne: "\<forall>now d md. e \<noteq> Start a now d md"
    and none: "map_of (store w) (meta_key a) = None"
  shows "map_of (store (exec e w)) (meta_key a) = None"
proof (cases e)
  case (Start a' now d md)
  with ne have "a' \<noteq> a" by auto
  with Start none show ?thesis by (simp add: start_operation_unfold map_of_store_put del: store_put)
next
  case (Pause a')
  show ?thesis
  proof (cases "a' = a")
    case True
    with Pause none show ?thesis by (simp add: control_calls status_call_absent after_call_def)
  next
    case False
    with Pause none status_call_other [OF False] show ?thesis by (simp add: control_calls)
  qed
next
  case (Resume a')
  show ?thesis
  proof (cases "a' = a")
    case True
    with Resume none show ?thesis by (simp add: control_calls status_call_absent after_call_def)
  next
    case False
    with Resume none status_call_other [OF False] show ?thesis by (simp add: control_calls)
  qed
next
  case (Cancel a')
  show ?thesis
  proof (cases "a' = a")
    case True
    with Cancel none show ?thesis by (simp add: control_calls status_call_absent after_call_def)
  next
    case False
    with Cancel none status_call_other [OF False] show ?thesis by (simp add: control_calls)
  qed
next
  case (Step a' now)
  show ?thesis
  proof (cases "a' = a")
    case True
    with Step nr none show ?thesis by (simp add: step_thread_def)
  next
    case False
    have "map_of (store (step_thread a' now w)) (meta_key a) = map_of (store w) (meta_key a)"
      using False by (intro step_thread_rows) simp_all
    with Step none show ?thesis by simp
  qed
qed

lemma get_status_absent:
  "map_of (store w) (meta_key a) = None \<Longrightarrow> get_status a w = Inr PNone"
  by (simp add: get_status_def session_read_def)

lemma nfe_exec:
  assumes inv: "world_inv w" and nfe: "not_finished_early w" and ok: "event_ok e w"
    and nso: "no_status_override e"
  shows "not_finished_early (exec e w)"
  unfolding not_finished_early_def
proof (intro allI impI)
  fix a
  assume ra': "result_absent (exec e w) a"
  have ra: "result_absent w a"
    using ra' row_persist [of w "result_key a" e] unfolding result_absent_def by blast
  with nfe have old: "get_status a w \<noteq> Inr (PStr ''finished'')"
    by (simp add: not_finished_early_def)
  show "get_status a (exec e w) \<noteq> Inr (PStr ''finished'')"
  proof (cases "threads w a")
    case (Some t)
    from world_inv_thread [OF inv Some] ra have "\<forall>m. task_pc t \<noteq> WriteMeta m"
      by (auto simp: thread_inv_def)
    then show ?thesis using status_exec [OF inv ok Some] old by simp
  next
    case None
    from inv have "case threads w a of None \<Rightarrow> no_rows w a | Some t' \<Rightarrow> thread_inv w a t'"
      unfolding world_inv_def by (rule spec)
    with None have none: "map_of (store w) (meta_key a) = None" by (simp add: no_rows_def)
    show ?thesis
    proof (cases "\<exists>now d md. e = Start a now d md")
      case True
      then obtain now d md where e: "e = Start a now d md" by blast
      with nso status_after_start [of a now d md w] show ?thesis by simp
    next
      case False
      then have "\<forall>now d md. e \<noteq> Start a now d md" by blast
      from meta_row_unstarted [OF None this none] show ?thesis
        by (simp add: get_status_absent)
    qed
  qed
qed

lemma nfe_run:
  "world_inv w \<Longrightarrow> not_finished_early w \<Longrightarrow> fresh_ids es w \<Longrightarrow>
   list_all no_status_override es \<Longrightarrow> not_finished_early (run es w)"
  unfolding run_def
  by (induction es arbitrary: w) (simp_all add: world_inv_exec nfe_exec)

lemma nfe_init: "not_finished_early init"
  by (simp add: not_finished_early_def init_def get_status_def session_read_def)

lemma store_keys_put [simp]: "store_keys (put k v w) = insert k (store_keys w)"
  by (simp add: store_keys_def session_write_def dom_update)

lemma store_keys_inc [simp]: "store_keys (inc_counter c w) = store_keys w"
  by (simp add: store_keys_def)

lemma store_keys_threads [simp]: "store_keys (w\<lparr>threads := th\<rparr>) = store_keys w"
  by (simp add: store_keys_def)

lemma distinct_rows_put [simp]: "distinct_rows w \<Longrightarrow> distinct_rows (put k v w)"
  by (simp add: distinct_rows_def session_write_def distinct_update)

lemma distinct_rows_inc [simp]: "distinct_rows (inc_counter c w) = distinct_rows w"
  by (simp add: distinct_rows_def)

lemma distinct_rows_threads [simp]: "distinct_rows (w\<lparr>threads := th\<rparr>) = distinct_rows w"
  by (simp add: distinct_rows_def)








lemma length_split_char: "length (split_char c s) = Suc (count_list s c)"
  by (induction s) (auto split: list.splits)


















section \<open>The session store\<close>




section \<open>The control calls\<close>

text \<open>
  Claim C6. For an operation identifier with no stored metadata row, \<^verbatim>\<open>pause_operation\<close>,
  \<^verbatim>\<open>resume_operation\<close> and \<^verbatim>\<open>cancel_operation\<close> each return \<^verbatim>\<open>False\<close>, raise nothing
  and leave the globals (the store and the counters) exactly as they were; for an
  identifier whose metadata record is stored, each returns \<^verbatim>\<open>True\<close>.
\<close>

theorem control_calls_not_found:
  "(map_of (store w) (meta_key op_id) = None \<longrightarrow>
      pause_operation op_id w = Inr (False, w) \<and>
      resume_operation op_id w = Inr (False, w) \<and>
      cancel_operation op_id w = Inr (False, w)) \<and>
   (has_metadata w op_id \<longrightarrow>
      (\<exists>w'. pause_operation op_id w = Inr (True, w')) \<and>
      (\<exists>w'. resume_operation op_id w = Inr (True, w')) \<and>
      (\<exists>w'. cancel_operation op_id w = Inr (True, w')))"
proof (intro conjI impI)
  assume "has_metadata w op_id"
  then obtain kvs where "session_read (store w) (meta_key op_id) PNone = PDict kvs" "kvs \<noteq> []"
    by (rule has_metadataD)
  note p = status_call_present [OF this]
  show "\<exists>w'. pause_operation op_id w = Inr (True, w')" by (simp add: control_calls p)
  show "\<exists>w'. resume_operation op_id w = Inr (True, w')" by (simp add: control_calls p)
  show "\<exists>w'. cancel_operation op_id w = Inr (True, w')" by (simp add: control_calls p)
qed (simp_all add: control_calls status_call_absent)

theorem control_calls_not_found_witness:
  "map_of (store init) (meta_key ''a'') = None \<and>
   pause_operation ''a'' init = Inr (False, init) \<and>
   has_metadata (exec (Start ''a'' 100 3 None) init) ''a'' \<and>
   (\<exists>w'. cancel_operation ''a'' (exec (Start ''a'' 100 3 None) init) = Inr (True, w'))"
  using control_calls_not_found [of init "''a''"]
    control_calls_not_found [of "exec (Start ''a'' 100 3 None) init" "''a''"]
  by (simp add: world_eval)

text \<open>
  Claim C7. For an operation whose metadata record is stored, pausing twice in a row
  succeeds both times and the second call leaves the store as the first left it, with
  status \<^verbatim>\<open>paused\<close>; resuming an operation whose status is already \<^verbatim>\<open>running\<close> succeeds
  and every read of the store returns what it returned before.
\<close>

theorem pause_resume_idempotent:
  "has_metadata w op_id \<longrightarrow>
     (\<exists>w1 w2. pause_operation op_id w = Inr (True, w1) \<and>
              pause_operation op_id w1 = Inr (True, w2) \<and>
              get_status op_id w1 = Inr (PStr ''paused'') \<and>
              store w2 = store w1) \<and>
     (get_status op_id w = Inr (PStr ''running'') \<longrightarrow>
        (\<exists>w'. resume_operation op_id w = Inr (True, w') \<and>
              (\<forall>key dflt. session_read (store w') key dflt = session_read (store w) key dflt)))"
proof (intro impI conjI)
  assume h: "has_metadata w op_id"
  then obtain kvs where r: "session_read (store w) (meta_key op_id) PNone = PDict kvs"
    and ne: "kvs \<noteq> []" and pl: "plain_json (PDict kvs)"
    by (rule has_metadataD)
  let ?kvs1 = "AList.update ''status'' (PStr ''paused'') kvs"
  from status_call_read_back [OF r ne pl, of "''paused''" "''ops_paused_total''" PNone]
  obtain w1 where c1: "pause_operation op_id w = Inr (True, w1)"
    and s1: "store w1 = AList.update (meta_key op_id) (Document (json_dumps (PDict ?kvs1))) (store w)"
    and r1: "session_read (store w1) (meta_key op_id) PNone = PDict ?kvs1"
    unfolding pause_status_call by blast
  have pl1: "plain_json (PDict ?kvs1)" using pl by (intro plain_update) simp_all
  have ne1: "?kvs1 \<noteq> []" by simp
  from status_call_read_back [OF r1 ne1 pl1, of "''paused''" "''ops_paused_total''" PNone]
  obtain w2 where c2: "pause_operation op_id w1 = Inr (True, w2)"
    and s2: "store w2 = AList.update (meta_key op_id)
               (Document (json_dumps (PDict (AList.update ''status'' (PStr ''paused'') ?kvs1)))) (store w1)"
    unfolding pause_status_call by blast
  have same: "store w2 = store w1" unfolding s2 s1 by (simp only: update_last)
  have "session_read (store w1) (meta_key op_id) (PDict []) = PDict ?kvs1"
    using r1 s1 by (simp add: session_read_def update_conv')
  then have g: "get_status op_id w1 = Inr (PStr ''paused'')"
    by (simp add: get_status_def update_conv')
  from c1 c2 g same
  show "\<exists>w1 w2. pause_operation op_id w = Inr (True, w1) \<and>
              pause_operation op_id w1 = Inr (True, w2) \<and>
              get_status op_id w1 = Inr (PStr ''paused'') \<and>
              store w2 = store w1" by blast
next
  assume h: "has_metadata w op_id" and run: "get_status op_id w = Inr (PStr ''running'')"
  from h obtain kvs where r: "session_read (store w) (meta_key op_id) PNone = PDict kvs"
    and st: "map_of kvs ''status'' \<noteq> None"
    and ne: "kvs \<noteq> []" and pl: "plain_json (PDict kvs)"
    by (rule has_metadataD)
  from h obtain payload where p: "map_of (store w) (meta_key op_id) = Some payload"
    by (auto simp: has_metadata_def split: option.splits)
  from r p have rd: "session_read (store w) (meta_key op_id) (PDict []) = PDict kvs"
    by (simp add: session_read_def)
  from run st have "map_of kvs ''status'' = Some (PStr ''running'')"
    by (auto simp: get_status_def rd)
  then have triv: "AList.update ''status'' (PStr ''running'') kvs = kvs" by (rule update_triv)
  from status_call_read_back [OF r ne pl, of "''running''" "''ops_resumed_total''"]
  obtain w' where c: "resume_operation op_id w = Inr (True, w')"
    and s': "store w' = AList.update (meta_key op_id) (Document (json_dumps (PDict kvs))) (store w)"
    unfolding resume_status_call triv by blast
  have l: "decode_row payload = PDict kvs" using r p by (simp add: session_read_def)
  have "\<forall>key dflt. session_read (store w') key dflt = session_read (store w) key dflt"
  proof (intro allI)
    fix key dflt
    show "session_read (store w') key dflt = session_read (store w) key dflt"
    proof (cases "key = meta_key op_id")
      case True
      then show ?thesis using p l pl
        by (simp only: s' session_read_def update_conv' fun_upd_same option.simps
              decode_row_simps loads_dumps)
    next
      case False
      then show ?thesis by (simp add: s' session_read_def update_conv')
    qed
  qed
  with c show "\<exists>w'. resume_operation op_id w = Inr (True, w') \<and>
              (\<forall>key dflt. session_read (store w') key dflt = session_read (store w) key dflt)"
    by blast
qed

theorem pause_resume_idempotent_witness:
  "has_metadata (exec (Start ''a'' 100 3 None) init) ''a'' \<and>
   get_status ''a'' (exec (Start ''a'' 100 3 None) init) = Inr (PStr ''running'') \<and>
   (\<exists>w'. resume_operation ''a'' (exec (Start ''a'' 100 3 None) init) = Inr (True, w') \<and>
      (\<forall>key dflt. session_read (store w') key dflt =
         session_read (store (exec (Start ''a'' 100 3 None) init)) key dflt))"
  using pause_resume_idempotent [of "exec (Start ''a'' 100 3 None) init" "''a''"]
  by (simp add: world_eval)

text \<open>
  Claim C10. When the metadata record of an operation is stored, \<^verbatim>\<open>pause_operation\<close>,
  \<^verbatim>\<open>resume_operation\<close> and \<^verbatim>\<open>cancel_operation\<close> replace only its \<^verbatim>\<open>status\<close> field: every
  other field (\<^verbatim>\<open>duration\<close>, \<^verbatim>\<open>created_at\<close>, the caller's annotations) reads back as before,
  and the only row written is the metadata row, so the progress and result rows are
  untouched.
\<close>

theorem control_calls_frame:
  "has_metadata w op_id \<longrightarrow>
     (\<exists>w'. pause_operation op_id w = Inr (True, w') \<and> status_only op_id ''paused'' w w') \<and>
     (\<exists>w'. resume_operation op_id w = Inr (True, w') \<and> status_only op_id ''running'' w w') \<and>
     (\<exists>w'. cancel_operation op_id w = Inr (True, w') \<and> status_only op_id ''cancelled'' w w')"
  by (simp add: control_calls status_call_frame)

theorem control_calls_frame_witness:
  "has_metadata (exec (Start ''a'' 100 3 None) init) ''a'' \<and>
   (\<exists>w'. pause_operation ''a'' (exec (Start ''a'' 100 3 None) init) = Inr (True, w') \<and>
         status_only ''a'' ''paused'' (exec (Start ''a'' 100 3 None) init) w')"
  using control_calls_frame [of "exec (Start ''a'' 100 3 None) init" "''a''"]
  by (simp add: world_eval)

section \<open>The progress record\<close>

text \<open>
  Claim C5. The claim is that the stored \<^verbatim>\<open>total\<close> equals the duration at creation and
  that no later write of the runner changes it, also for a duration of zero or less.
  \<^verbatim>\<open>start_operation\<close> stores \<^verbatim>\<open>total\<close> as the duration it was given, while the runner
  works \<^verbatim>\<open>max(1, duration)\<close> steps and stores that number as \<^verbatim>\<open>total\<close> with every step.
  For a duration of zero the two disagree: the record is created with total 0, and the
  first unit of work of the runner changes the total to 1.
\<close>

theorem progress_total_not_fixed:
  "stored_progress (run [Start ''a'' 100 0 None] init) ''a'' = progress_record 0 0 \<and>
   stored_progress (run [Start ''a'' 100 0 None, Step ''a'' 101, Step ''a'' 102] init) ''a''
     = progress_record 1 1"
  by (simp add: trace_eval)




section \<open>The status of an operation\<close>

text \<open>
  Claim C2, as amended. The claim has the statuses \<^verbatim>\<open>cancelled\<close> and \<^verbatim>\<open>finished\<close> final and
  allows only the paths running, paused, running; running or paused to cancelled;
  running to finished. The code keeps no such discipline in the control calls: for a
  started operation, in every interleaving, \<^verbatim>\<open>pause_operation\<close> sets the status to
  \<^verbatim>\<open>paused\<close>, \<^verbatim>\<open>resume_operation\<close> to \<^verbatim>\<open>running\<close> and \<^verbatim>\<open>cancel_operation\<close> to \<^verbatim>\<open>cancelled\<close>,
  whatever the status was, \<^verbatim>\<open>cancelled\<close> and \<^verbatim>\<open>finished\<close> included. The runner changes the
  status only by its last write, to \<^verbatim>\<open>finished\<close>. No other step changes it.
\<close>

theorem status_changes:
  assumes "fresh_ids (es @ [e]) init" and "threads (run es init) a = Some t"
  shows "get_status a (run (es @ [e]) init) =
     (if e = Pause a then Inr (PStr ''paused'')
      else if e = Resume a then Inr (PStr ''running'')
      else if e = Cancel a then Inr (PStr ''cancelled'')
      else if (\<exists>now. e = Step a now) \<and> (\<exists>m. task_pc t = WriteMeta m) then Inr (PStr ''finished'')
      else get_status a (run es init))"
proof -
  from assms(1) have fr: "fresh_ids es init" and ok: "event_ok e (run es init)"
    unfolding fresh_ids_snoc by simp_all
  have inv: "world_inv (run es init)" using fr by (rule reachable_inv)
  show ?thesis unfolding run_snoc by (rule status_exec [OF inv ok assms(2)])
qed

theorem status_changes_witness:
  "fresh_ids ([Start ''a'' 100 3 None, Cancel ''a''] @ [Resume ''a'']) init \<and>
   threads (run [Start ''a'' 100 3 None, Cancel ''a''] init) ''a''
     = Some \<lparr>task_duration = 3, task_pc = PollMeta 0\<rparr> \<and>
   get_status ''a'' (run ([Start ''a'' 100 3 None, Cancel ''a''] @ [Resume ''a'']) init)
     = Inr (PStr ''running'')"
proof -
  have f: "fresh_ids ([Start ''a'' 100 3 None, Cancel ''a''] @ [Resume ''a'']) init"
    by (simp add: init_def)
  have t: "threads (run [Start ''a'' 100 3 None, Cancel ''a''] init) ''a''
     = Some \<lparr>task_duration = 3, task_pc = PollMeta 0\<rparr>"
    by (simp add: trace_eval)
  from status_changes [OF f t] f t show ?thesis by simp
qed

text \<open>
  The claim as stated fails: \<^verbatim>\<open>resume_operation\<close> takes a cancelled operation back to
  \<^verbatim>\<open>running\<close>.
\<close>

theorem status_changes_counterexample:
  "get_status ''a'' (run [Start ''a'' 100 3 None, Cancel ''a''] init) = Inr (PStr ''cancelled'') \<and>
   get_status ''a'' (run [Start ''a'' 100 3 None, Cancel ''a'', Resume ''a''] init)
     = Inr (PStr ''running'')"
  by (simp add: trace_eval)

text \<open>
  Claim C1. The claim is that a runner in its work loop sees a cancellation at the next
  iteration boundary, writes a result that marks it and stops without further work or
  progress writes. The work loop tests the status for \<^verbatim>\<open>paused\<close> only; \<^verbatim>\<open>cancelled\<close> is
  tested in the pause-wait loop alone. So the code does otherwise: an operation of
  duration 2 that is cancelled before its first poll is polled with status
  \<^verbatim>\<open>cancelled\<close>, goes on to write step 1 and step 2, writes the result \<^verbatim>\<open>finished\<close> and
  replaces the status \<^verbatim>\<open>cancelled\<close> by \<^verbatim>\<open>finished\<close>.
\<close>

theorem cancel_while_running_ignored:
  "get_status ''a'' (run [Start ''a'' 100 2 None, Cancel ''a''] init) = Inr (PStr ''cancelled'') \<and>
   threads (run [Start ''a'' 100 2 None, Cancel ''a''] init) ''a''
     = Some \<lparr>task_duration = 2, task_pc = PollMeta 0\<rparr> \<and>
   threads (run [Start ''a'' 100 2 None, Cancel ''a'', Step ''a'' 101] init) ''a''
     = Some \<lparr>task_duration = 2, task_pc = WriteProgress 0\<rparr> \<and>
   stored_progress (run [Start ''a'' 100 2 None, Cancel ''a'', Step ''a'' 101, Step ''a'' 102] init) ''a''
     = progress_record 1 2 \<and>
   threads (run [Start ''a'' 100 2 None, Cancel ''a'', Step ''a'' 101, Step ''a'' 102,
                 Step ''a'' 103, Step ''a'' 104, Step ''a'' 105, Step ''a'' 106, Step ''a'' 107] init) ''a''
     = Some \<lparr>task_duration = 2, task_pc = Returned\<rparr> \<and>
   stored_progress (run [Start ''a'' 100 2 None, Cancel ''a'', Step ''a'' 101, Step ''a'' 102,
                 Step ''a'' 103, Step ''a'' 104, Step ''a'' 105, Step ''a'' 106, Step ''a'' 107] init) ''a''
     = progress_record 2 2 \<and>
   session_read (store (run [Start ''a'' 100 2 None, Cancel ''a'', Step ''a'' 101, Step ''a'' 102,
                 Step ''a'' 103, Step ''a'' 104, Step ''a'' 105, Step ''a'' 106, Step ''a'' 107] init))
       (result_key ''a'') PNone
     = PDict [(''status'', PStr ''finished''), (''completed_at'', PInt 105)] \<and>
   get_status ''a'' (run [Start ''a'' 100 2 None, Cancel ''a'', Step ''a'' 101, Step ''a'' 102,
                 Step ''a'' 103, Step ''a'' 104, Step ''a'' 105, Step ''a'' 106, Step ''a'' 107] init)
     = Inr (PStr ''finished'')"
  by (simp add: trace_eval)

text \<open>
  Claim C4, as amended. The claim is that a result record exists exactly when the status
  is \<^verbatim>\<open>cancelled\<close> or \<^verbatim>\<open>finished\<close>. What holds in every state reached by operations whose
  caller gave no annotation named \<^verbatim>\<open>status\<close>: if the status is \<^verbatim>\<open>finished\<close>, the result
  record exists (the runner writes it before the status); and a result record exists
  only when the thread of the operation has left its loop, that is, has returned or is
  between writing the result and writing the status.
\<close>

theorem result_and_status:
  assumes "fresh_ids es init" and "list_all no_status_override es"
  shows "(get_status a (run es init) = Inr (PStr ''finished'') \<longrightarrow>
            \<not> result_absent (run es init) a) \<and>
         (\<not> result_absent (run es init) a \<longrightarrow>
            (\<exists>t. threads (run es init) a = Some t \<and> left_loop (task_pc t)))"
proof
  from nfe_run [OF world_inv_init nfe_init assms]
  show "get_status a (run es init) = Inr (PStr ''finished'') \<longrightarrow> \<not> result_absent (run es init) a"
    unfolding not_finished_early_def by blast
next
  let ?w = "run es init"
  have inv: "world_inv ?w" using assms(1) by (rule reachable_inv)
  then have c: "case threads ?w a of None \<Rightarrow> no_rows ?w a | Some t' \<Rightarrow> thread_inv ?w a t'"
    unfolding world_inv_def by (rule spec)
  show "\<not> result_absent ?w a \<longrightarrow> (\<exists>t. threads ?w a = Some t \<and> left_loop (task_pc t))"
  proof
    assume r: "\<not> result_absent ?w a"
    show "\<exists>t. threads ?w a = Some t \<and> left_loop (task_pc t)"
    proof (cases "threads ?w a")
      case None
      with c r show ?thesis by (simp add: no_rows_result_absent)
    next
      case (Some t)
      with c have "thread_inv ?w a t" by simp
      with r have "left_loop (task_pc t)" by (cases "task_pc t") (simp_all add: thread_inv_def)
      with Some show ?thesis by simp
    qed
  qed
qed

theorem result_and_status_witness:
  "fresh_ids [Start ''a'' 100 1 None, Step ''a'' 101, Step ''a'' 102, Step ''a'' 103,
              Step ''a'' 104, Step ''a'' 105] init \<and>
   list_all no_status_override [Start ''a'' 100 1 None, Step ''a'' 101, Step ''a'' 102,
              Step ''a'' 103, Step ''a'' 104, Step ''a'' 105] \<and>
   get_status ''a'' (run [Start ''a'' 100 1 None, Step ''a'' 101, Step ''a'' 102, Step ''a'' 103,
              Step ''a'' 104, Step ''a'' 105] init) = Inr (PStr ''finished'') \<and>
   \<not> result_absent (run [Start ''a'' 100 1 None, Step ''a'' 101, Step ''a'' 102, Step ''a'' 103,
              Step ''a'' 104, Step ''a'' 105] init) ''a'' \<and>
   (\<exists>t. threads (run [Start ''a'' 100 1 None, Step ''a'' 101, Step ''a'' 102, Step ''a'' 103,
              Step ''a'' 104, Step ''a'' 105] init) ''a'' = Some t \<and> left_loop (task_pc t))"
proof -
  let ?es = "[Start ''a'' 100 1 None, Step ''a'' 101, Step ''a'' 102, Step ''a'' 103,
              Step ''a'' 104, Step ''a'' 105]"
  have f: "fresh_ids ?es init" by (simp add: init_def)
  have n: "list_all no_status_override ?es" by simp
  have s: "get_status ''a'' (run ?es init) = Inr (PStr ''finished'')" by (simp add: trace_eval)
  from result_and_status [OF f n, of "''a''"] f n s show ?thesis by blast
qed

text \<open>
  The claim as stated fails in both directions. Just after \<^verbatim>\<open>cancel_operation\<close> the status
  is \<^verbatim>\<open>cancelled\<close> and there is no result record; and when the runner has written the
  result but not yet the status, the result record exists and the status is \<^verbatim>\<open>running\<close>.
\<close>

theorem result_and_status_counterexample:
  "get_status ''a'' (run [Start ''a'' 100 3 None, Cancel ''a''] init) = Inr (PStr ''cancelled'') \<and>
   result_absent (run [Start ''a'' 100 3 None, Cancel ''a''] init) ''a'' \<and>
   get_status ''a'' (run [Start ''a'' 100 1 None, Step ''a'' 101, Step ''a'' 102, Step ''a'' 103] init)
     = Inr (PStr ''running'') \<and>
   \<not> result_absent (run [Start ''a'' 100 1 None, Step ''a'' 101, Step ''a'' 102, Step ''a'' 103] init) ''a''"
  by (simp add: trace_eval)

section \<open>Starting and listing\<close>




end
